theory Spec2Isabelle
  imports Main "HOL-Library.Word"
begin

section \<open>Values of the Go program\<close>

text \<open>
  \<open>time.Duration\<close> is an \<open>int64\<close> count of nanoseconds: addition and subtraction wrap
  around, and comparisons read the word as two's complement (\<open>sint\<close>).
\<close>

type_synonym duration = "64 word"

definition Second :: duration where
  "Second = 1000000000"

text \<open>
  A Go \<open>error\<close> is an interface value; \<open>None\<close> stands for \<open>nil\<close>. The type assertion
  of \<open>err\<close> to \<open>*store.NotFound\<close> in \<open>Get\<close> looks at the dynamic type, so the model keeps
  the pointer \<open>&store.NotFound{}\<close> and the struct value \<open>store.NotFound{}\<close> apart.
\<close>

datatype error = NotFoundPtr | NotFoundVal | OtherError string

fun isNotFoundPtr :: "error \<Rightarrow> bool" where
  "isNotFoundPtr NotFoundPtr = True"
| "isNotFoundPtr NotFoundVal = False"
| "isNotFoundPtr (OtherError msg) = False"

text \<open>
  A \<open>context.Context\<close>: \<open>context.Background()\<close>, or the context a caller passed in
  (told apart by a number).
\<close>

datatype ctx = Background | CallerCtx nat

text \<open>
  Keys are \<open>any\<close>. \<open>getCacheKey\<close> switches on the dynamic type: a string is its own
  cache key, a \<open>CacheKeyGenerator\<close> answers \<open>GetCacheKey()\<close>, and every other value is
  hashed by \<open>checksum\<close>; the value of that last kind carries its digest.
\<close>

datatype key = StringKey string | GeneratorKey string | ChecksumKey string

fun getCacheKey :: "key \<Rightarrow> string" where
  "getCacheKey (StringKey v) = v"
| "getCacheKey (GeneratorKey generated) = generated"
| "getCacheKey (ChecksumKey digest) = digest"

subsection \<open>Store options\<close>

text \<open>
  Modelled from the spec: the functional options of the imported package \<open>store\<close>
  (\<open>store.Option\<close>, \<open>store.Options\<close>, \<open>store.ApplyOptions\<close>, \<open>store.WithExpiration\<close>),
  which are not part of the sources at hand. An option sets one field of the options
  struct; \<open>ApplyOptions\<close> starts from the zero struct and applies the options from left
  to right, so a later \<open>WithExpiration\<close> overrides an earlier one, and it never returns
  a nil pointer (\<open>Some\<close>).
\<close>

datatype Option = WithCost "64 word" | WithExpiration duration | WithTags "string list"

record Options =
  cost :: "64 word"
  expiration :: duration
  tags :: "string list"

definition emptyOptions :: Options where
  "emptyOptions = \<lparr>cost = 0, expiration = 0, tags = []\<rparr>"

fun applyOption :: "Options \<Rightarrow> Option \<Rightarrow> Options" where
  "applyOption opts (WithCost c) = opts\<lparr>cost := c\<rparr>"
| "applyOption opts (WithExpiration d) = opts\<lparr>expiration := d\<rparr>"
| "applyOption opts (WithTags ts) = opts\<lparr>tags := ts\<rparr>"

definition ApplyOptions :: "Option list \<Rightarrow> Options option" where
  "ApplyOptions options = Some (foldl applyOption emptyOptions options)"

text \<open>The expiration an underlying store reads off the options it is handed.\<close>

definition receivedExpiration :: "Option list \<Rightarrow> duration" where
  "receivedExpiration options =
     (case ApplyOptions options of None \<Rightarrow> 0 | Some opts \<Rightarrow> expiration opts)"

section \<open>Collaborators\<close>

text \<open>
  The underlying cache, the load function and the admission predicate are supplied by
  the user of the wrapper. Each is a function on a world \<open>'w\<close> that stands for
  everything they may read or change (the store's contents, the clock, a database).
  Beside the world, the state keeps the list of collaborator calls made so far, oldest
  first.
\<close>

datatype 'v call =
    CallGetWithTTL ctx key
  | CallSet ctx key 'v "Option list"
  | CallLoad ctx key
  | CallShouldCache key 'v
  | CallPrintln 'v

record ('v, 'w) env =
  world :: 'w
  calls :: "'v call list"

record ('v, 'w) SetterCacheInterface =
  cacheGetWithTTL :: "ctx \<Rightarrow> key \<Rightarrow> 'w \<Rightarrow> ('v \<times> duration \<times> error option) \<times> 'w"
  cacheSet :: "ctx \<Rightarrow> key \<Rightarrow> 'v \<Rightarrow> Option list \<Rightarrow> 'w \<Rightarrow> error option \<times> 'w"

type_synonym ('v, 'w) LoadFunction = "ctx \<Rightarrow> key \<Rightarrow> 'w \<Rightarrow> ('v \<times> error option) \<times> 'w"

type_synonym 'v ShouldCachePredicate = "key \<Rightarrow> 'v \<Rightarrow> bool"

section \<open>The staleable cache\<close>

text \<open>
  The struct \<open>StaleableCache[T]\<close> without its \<open>inprogressMap\<close>, which is mutable and
  lives in the state of \<open>Get\<close> below. A nil \<open>loadFunc\<close> or \<open>shouldCache\<close> is \<open>None\<close>.
  The zero value \<open>*new(T)\<close> is \<open>default\<close>.
\<close>

record ('v, 'w) StaleableCache =
  cache :: "('v, 'w) SetterCacheInterface"
  minimumTTL :: duration
  refreshTTL :: duration
  loadFunc :: "('v, 'w) LoadFunction option"
  shouldCache :: "'v ShouldCachePredicate option"

definition NewStaleable :: "('v, 'w) SetterCacheInterface \<Rightarrow>
    (('v, 'w) StaleableCache \<Rightarrow> ('v, 'w) StaleableCache) list \<Rightarrow> ('v, 'w) StaleableCache" where
  "NewStaleable underlyingCache opts =
     foldl (\<lambda>staleableCache opt. opt staleableCache)
       \<lparr>cache = underlyingCache, minimumTTL = 0, refreshTTL = 0,
        loadFunc = None, shouldCache = None\<rparr> opts"

definition WithTTL :: "duration \<Rightarrow> ('v, 'w) StaleableCache \<Rightarrow> ('v, 'w) StaleableCache" where
  "WithTTL ttl c = c\<lparr>refreshTTL := ttl\<rparr>"

definition WithMaxStaleCacheTTL :: "duration \<Rightarrow> ('v, 'w) StaleableCache \<Rightarrow> ('v, 'w) StaleableCache" where
  "WithMaxStaleCacheTTL ttl c = c\<lparr>minimumTTL := ttl\<rparr>"

definition WithStaleCacheLoadFunction ::
    "('v, 'w) LoadFunction \<Rightarrow> ('v, 'w) StaleableCache \<Rightarrow> ('v, 'w) StaleableCache" where
  "WithStaleCacheLoadFunction f c = c\<lparr>loadFunc := Some f\<rparr>"

definition WithStaleCachePredicate ::
    "'v ShouldCachePredicate \<Rightarrow> ('v, 'w) StaleableCache \<Rightarrow> ('v, 'w) StaleableCache" where
  "WithStaleCachePredicate f c = c\<lparr>shouldCache := Some f\<rparr>"

subsection \<open>GetWithTTL\<close>

definition GetWithTTL :: "('v::default, 'w) StaleableCache \<Rightarrow> ctx \<Rightarrow> key \<Rightarrow> ('v, 'w) env \<Rightarrow>
    ('v \<times> duration \<times> error option) \<times> ('v, 'w) env" where
  "GetWithTTL s c k \<sigma> =
     (let ((val, storeCacheDuration, err), w) = cacheGetWithTTL (cache s) c k (world \<sigma>);
          \<sigma>' = \<sigma>\<lparr>world := w, calls := calls \<sigma> @ [CallGetWithTTL c k, CallPrintln val]\<rparr>
      in case err of
           Some e \<Rightarrow> ((default, 0, Some e), \<sigma>')
         | None \<Rightarrow> ((val, storeCacheDuration - minimumTTL s, None), \<sigma>'))"

subsection \<open>Set\<close>

definition Set :: "('v, 'w) StaleableCache \<Rightarrow> ctx \<Rightarrow> key \<Rightarrow> 'v \<Rightarrow> Option list \<Rightarrow> ('v, 'w) env \<Rightarrow>
    error option \<times> ('v, 'w) env" where
  "Set s c k val options \<sigma> =
     (let opts = ApplyOptions options;
          expiration0 = (case opts of None \<Rightarrow> 0 | Some os \<Rightarrow> expiration os);
          expiration1 = (if expiration0 = 0 then refreshTTL s else expiration0);
          options' = options @ [WithExpiration (minimumTTL s + expiration1)];
          (err, w) = cacheSet (cache s) c k val options' (world \<sigma>)
      in (err, \<sigma>\<lparr>world := w, calls := calls \<sigma> @ [CallSet c k val options']\<rparr>))"

subsection \<open>loadAndStore\<close>

text \<open>
  \<open>loadAndStore\<close> is written in two halves, because another goroutine can run between
  the call of \<open>loadFunc\<close> and the call of \<open>Set\<close>. \<open>loadAndStore_load\<close> is the function
  up to the second early return: it yields the pair to return and whether the write is
  still to be done. \<open>loadAndStore_store\<close> is the write, whose error is dropped, and the
  final return.
\<close>

definition loadAndStore_load :: "('v::default, 'w) StaleableCache \<Rightarrow> ctx \<Rightarrow> key \<Rightarrow> ('v, 'w) env \<Rightarrow>
    (('v \<times> error option) \<times> bool) \<times> ('v, 'w) env" where
  "loadAndStore_load s c k \<sigma> =
     (case loadFunc s of
        None \<Rightarrow> (((default, None), False), \<sigma>)
      | Some f \<Rightarrow>
          (let ((res, err), w) = f c k (world \<sigma>);
               \<sigma>1 = \<sigma>\<lparr>world := w, calls := calls \<sigma> @ [CallLoad c k]\<rparr>
           in if err \<noteq> None then (((res, err), False), \<sigma>1)
              else (case shouldCache s of
                      None \<Rightarrow> (((res, err), True), \<sigma>1)
                    | Some p \<Rightarrow>
                        (((res, err), p k res),
                         \<sigma>1\<lparr>calls := calls \<sigma>1 @ [CallShouldCache k res]\<rparr>))))"

definition loadAndStore_store :: "('v, 'w) StaleableCache \<Rightarrow> ctx \<Rightarrow> key \<Rightarrow> 'v \<times> error option \<Rightarrow>
    ('v, 'w) env \<Rightarrow> ('v \<times> error option) \<times> ('v, 'w) env" where
  "loadAndStore_store s c k r \<sigma> =
     (let (_, \<sigma>2) = Set s c k (fst r) [] \<sigma> in (r, \<sigma>2))"

definition loadAndStore :: "('v::default, 'w) StaleableCache \<Rightarrow> ctx \<Rightarrow> key \<Rightarrow> ('v, 'w) env \<Rightarrow>
    ('v \<times> error option) \<times> ('v, 'w) env" where
  "loadAndStore s c k \<sigma> =
     (let ((r, writing), \<sigma>1) = loadAndStore_load s c k \<sigma>
      in if writing then loadAndStore_store s c k r \<sigma>1 else (r, \<sigma>1))"

section \<open>Get\<close>

text \<open>
  \<open>Get\<close> runs concurrently with other calls of \<open>Get\<close> and with the goroutines it
  starts, and they share \<open>inprogressMap\<close> and the \<open>mapEntry\<close> records it points to.
  The model is a machine: every call of \<open>Get\<close> and every started goroutine is a thread
  with a program point, and one step of a thread is one access to shared state (one
  operation of the \<open>sync.Map\<close>, one channel operation, one call of a collaborator
  together with the local code up to the next such access).

  A \<open>mapEntry\<close> is addressed by its index in \<open>entries\<close>. \<open>lockChannel\<close> is \<open>True\<close> once the
  channel has been closed; nothing is ever sent on it.
\<close>

record 'v mapEntry =
  lockChannel :: bool
  entry_value :: 'v
  entry_err :: "error option"

text \<open>
  Program points of a call of \<open>Get\<close>, with the address of the \<open>mapEntry\<close> it holds:
  \<^item> \<open>Entered\<close>: before \<open>LoadOrStore\<close>;
  \<^item> \<open>Waiting\<close>: at the receive from \<open>lockChannel\<close> (another call was in progress);
  \<^item> \<open>Leading\<close>: before \<open>s.GetWithTTL\<close>;
  \<^item> \<open>Loading\<close>: before the \<open>loadAndStore\<close> of the first or second branch;
  \<^item> \<open>Storing\<close>: inside that \<open>loadAndStore\<close>, before \<open>s.Set\<close>;
  \<^item> \<open>Deleting\<close>: before \<open>s.inprogressMap.Delete\<close>;
  \<^item> \<open>Spawning\<close>: before the \<open>go\<close> statement of the third branch;
  \<^item> \<open>Closing\<close>: before \<open>close(mEntry.lockChannel)\<close>;
  \<^item> \<open>Returned\<close>: the call has returned this pair.
  Program points of the goroutine of the third branch, which keeps the address of the
  record of the call that started it (the code does not use it):
  \<open>BgLoading\<close>, \<open>BgStoring\<close>, \<open>BgDeleting\<close> and \<open>BgDone\<close>.
\<close>

datatype 'v pc =
    Entered
  | Waiting nat
  | Leading nat
  | Loading nat
  | Storing nat "'v \<times> error option"
  | Deleting nat
  | Spawning nat
  | Closing nat
  | Returned nat "'v \<times> error option"
  | BgLoading nat
  | BgStoring nat "'v \<times> error option"
  | BgDeleting nat
  | BgDone nat

record 'v thread =
  tctx :: ctx
  tkey :: key
  tpc :: "'v pc"

record ('v, 'w) state =
  senv :: "('v, 'w) env"
  inprogressMap :: "string \<Rightarrow> nat option"
  entries :: "'v mapEntry list"
  threads :: "'v thread list"

definition initial :: "('v, 'w) env \<Rightarrow> ('v, 'w) state" where
  "initial \<sigma> = \<lparr>senv = \<sigma>, inprogressMap = (\<lambda>k. None), entries = [], threads = []\<rparr>"

definition setPc :: "nat \<Rightarrow> 'v pc \<Rightarrow> ('v, 'w) state \<Rightarrow> ('v, 'w) state" where
  "setPc i p s = s\<lparr>threads := (threads s)[i := (threads s ! i)\<lparr>tpc := p\<rparr>]\<rparr>"

definition setResult :: "nat \<Rightarrow> 'v \<times> error option \<Rightarrow> ('v, 'w) state \<Rightarrow> ('v, 'w) state" where
  "setResult a r s =
     s\<lparr>entries := (entries s)[a := (entries s ! a)\<lparr>entry_value := fst r, entry_err := snd r\<rparr>]\<rparr>"

text \<open>
  One step of thread \<open>i\<close>. A thread that waits on an open channel, has returned or is
  done does not move. \<open>LoadOrStore\<close> stores the fresh record only when the key is absent
  (the record allocated for a key that is present is dropped at once).
\<close>

definition step :: "('v::default, 'w) StaleableCache \<Rightarrow> nat \<Rightarrow> ('v, 'w) state \<Rightarrow> ('v, 'w) state" where
  "step c i s =
     (if length (threads s) \<le> i then s
      else
        (let t = threads s ! i; stringKey = getCacheKey (tkey t)
         in case tpc t of
              Entered \<Rightarrow>
                (case inprogressMap s stringKey of
                   Some a \<Rightarrow> setPc i (Waiting a) s
                 | None \<Rightarrow>
                     setPc i (Leading (length (entries s)))
                       (s\<lparr>inprogressMap := (inprogressMap s)(stringKey := Some (length (entries s))),
                          entries := entries s @
                            [\<lparr>lockChannel = False, entry_value = default, entry_err = None\<rparr>]\<rparr>))
            | Waiting a \<Rightarrow>
                (if lockChannel (entries s ! a)
                 then setPc i (Returned a (entry_value (entries s ! a), entry_err (entries s ! a))) s
                 else s)
            | Leading a \<Rightarrow>
                (let ((object, ttl, err), \<sigma>) = GetWithTTL c (tctx t) (tkey t) (senv s);
                     s1 = setResult a (object, err) (s\<lparr>senv := \<sigma>\<rparr>)
                 in case err of
                      Some e \<Rightarrow>
                        if isNotFoundPtr e then setPc i (Loading a) s1 else setPc i (Deleting a) s1
                    | None \<Rightarrow>
                        if ttl + minimumTTL c <s 0 then setPc i (Loading a) s1
                        else if ttl <s 0 then setPc i (Spawning a) s1
                        else setPc i (Deleting a) s1)
            | Loading a \<Rightarrow>
                (let ((r, writing), \<sigma>) = loadAndStore_load c (tctx t) (tkey t) (senv s)
                 in if writing then setPc i (Storing a r) (s\<lparr>senv := \<sigma>\<rparr>)
                    else setPc i (Deleting a) (setResult a r (s\<lparr>senv := \<sigma>\<rparr>)))
            | Storing a r \<Rightarrow>
                (let (r', \<sigma>) = loadAndStore_store c (tctx t) (tkey t) r (senv s)
                 in setPc i (Deleting a) (setResult a r' (s\<lparr>senv := \<sigma>\<rparr>)))
            | Deleting a \<Rightarrow>
                setPc i (Closing a) (s\<lparr>inprogressMap := (inprogressMap s)(stringKey := None)\<rparr>)
            | Spawning a \<Rightarrow>
                setPc i (Closing a)
                  (s\<lparr>threads := threads s @ [\<lparr>tctx = tctx t, tkey = tkey t, tpc = BgLoading a\<rparr>]\<rparr>)
            | Closing a \<Rightarrow>
                setPc i (Returned a (entry_value (entries s ! a), entry_err (entries s ! a)))
                  (s\<lparr>entries := (entries s)[a := (entries s ! a)\<lparr>lockChannel := True\<rparr>]\<rparr>)
            | Returned a r \<Rightarrow> s
            | BgLoading a \<Rightarrow>
                (let ((r, writing), \<sigma>) = loadAndStore_load c Background (tkey t) (senv s)
                 in setPc i (if writing then BgStoring a r else BgDeleting a) (s\<lparr>senv := \<sigma>\<rparr>))
            | BgStoring a r \<Rightarrow>
                (let (_, \<sigma>) = loadAndStore_store c Background (tkey t) r (senv s)
                 in setPc i (BgDeleting a) (s\<lparr>senv := \<sigma>\<rparr>))
            | BgDeleting a \<Rightarrow>
                setPc i (BgDone a) (s\<lparr>inprogressMap := (inprogressMap s)(stringKey := None)\<rparr>)
            | BgDone a \<Rightarrow> s))"

text \<open>
  What happens to the machine: a caller calls \<open>Get\<close> (a new thread), or the scheduler
  lets a thread take a step. A run performs a list of such actions; every interleaving
  of the threads is the run of some list.
\<close>

datatype action = Call ctx key | Run nat

fun perform :: "('v::default, 'w) StaleableCache \<Rightarrow> ('v, 'w) state \<Rightarrow> action \<Rightarrow> ('v, 'w) state" where
  "perform c s (Call cx k) = s\<lparr>threads := threads s @ [\<lparr>tctx = cx, tkey = k, tpc = Entered\<rparr>]\<rparr>"
| "perform c s (Run i) = step c i s"

definition run :: "('v::default, 'w) StaleableCache \<Rightarrow> ('v, 'w) state \<Rightarrow> action list \<Rightarrow> ('v, 'w) state" where
  "run c s as = foldl (perform c) s as"

text \<open>What the call of thread \<open>i\<close> has returned, if it has.\<close>

definition result :: "('v, 'w) state \<Rightarrow> nat \<Rightarrow> ('v \<times> error option) option" where
  "result s i = (case tpc (threads s ! i) of Returned a r \<Rightarrow> Some r | _ \<Rightarrow> None)"

subsection \<open>Roles of the threads\<close>

text \<open>
  \<open>leads\<close>: the record a call of \<open>Get\<close> created and has not yet released; it is the
  only thread that writes the record's fields and closes its channel.
  \<open>holds\<close>: the record a thread still has to delete from \<open>inprogressMap\<close>: the call that
  created it, until it deletes it or hands it to the goroutine it starts, and then that
  goroutine.
  \<open>reloading\<close>: the thread is about to run, or is inside, \<open>loadAndStore\<close>.
  \<open>refers\<close>: the record a program point names.
  \<open>refreshOf a\<close>: the thread is the goroutine started for record \<open>a\<close>, running or done.
  \<open>isCall\<close>: the thread is a call of \<open>Get\<close>, not a goroutine.
  \<open>synchronous\<close>: the thread is a call of \<open>Get\<close> that has not taken the third branch.
\<close>

fun leads :: "'v pc \<Rightarrow> nat option" where
  "leads (Leading a) = Some a"
| "leads (Loading a) = Some a"
| "leads (Storing a r) = Some a"
| "leads (Deleting a) = Some a"
| "leads (Spawning a) = Some a"
| "leads (Closing a) = Some a"
| "leads Entered = None"
| "leads (Waiting a) = None"
| "leads (Returned a r) = None"
| "leads (BgLoading a) = None"
| "leads (BgStoring a r) = None"
| "leads (BgDeleting a) = None"
| "leads (BgDone a) = None"

fun holds :: "'v pc \<Rightarrow> nat option" where
  "holds (Leading a) = Some a"
| "holds (Loading a) = Some a"
| "holds (Storing a r) = Some a"
| "holds (Deleting a) = Some a"
| "holds (Spawning a) = Some a"
| "holds (BgLoading a) = Some a"
| "holds (BgStoring a r) = Some a"
| "holds (BgDeleting a) = Some a"
| "holds Entered = None"
| "holds (Waiting a) = None"
| "holds (Closing a) = None"
| "holds (Returned a r) = None"
| "holds (BgDone a) = None"


fun refers :: "'v pc \<Rightarrow> nat option" where
  "refers Entered = None"
| "refers (Waiting a) = Some a"
| "refers (Leading a) = Some a"
| "refers (Loading a) = Some a"
| "refers (Storing a r) = Some a"
| "refers (Deleting a) = Some a"
| "refers (Spawning a) = Some a"
| "refers (Closing a) = Some a"
| "refers (Returned a r) = Some a"
| "refers (BgLoading a) = Some a"
| "refers (BgStoring a r) = Some a"
| "refers (BgDeleting a) = Some a"
| "refers (BgDone a) = Some a"

text \<open>A call that has created a record and not yet come to the write to the store.\<close>

fun beforeWrite :: "'v pc \<Rightarrow> bool" where
  "beforeWrite (Leading a) = True"
| "beforeWrite (Loading a) = True"
| "beforeWrite (Storing a r) = True"
| "beforeWrite p = False"

fun refreshOf :: "nat \<Rightarrow> 'v pc \<Rightarrow> bool" where
  "refreshOf a (BgLoading b) = (a = b)"
| "refreshOf a (BgStoring b r) = (a = b)"
| "refreshOf a (BgDeleting b) = (a = b)"
| "refreshOf a (BgDone b) = (a = b)"
| "refreshOf a p = False"




text \<open>
  The pair a call of \<open>Get\<close> will return unless it reloads again: the one it carries to
  the write, the one in its record once the reload is over, the one it has returned.
\<close>

fun carries :: "'v mapEntry list \<Rightarrow> 'v pc \<Rightarrow> ('v \<times> error option) option" where
  "carries es (Storing a r) = Some r"
| "carries es (Deleting a) = Some (entry_value (es ! a), entry_err (es ! a))"
| "carries es (Closing a) = Some (entry_value (es ! a), entry_err (es ! a))"
| "carries es (Returned a r) = Some r"
| "carries es p = None"

subsection \<open>Invariant of the machine\<close>

text \<open>
  What holds in every state the machine reaches from \<open>initial\<close>:
  \<^item> every address in a program point or in \<open>inprogressMap\<close> is allocated;
  \<^item> the channel of a record is open while a call leads it, and no two calls lead the
    same record;
  \<^item> a call that has returned holds the pair of its record, whose channel is closed;
  \<^item> a thread that holds a record is registered in \<open>inprogressMap\<close> under its key, and
    no two threads hold records for the same key.
\<close>

definition addresses_valid :: "('v, 'w) state \<Rightarrow> bool" where
  "addresses_valid s =
     ((\<forall>i a. i < length (threads s) \<longrightarrow> refers (tpc (threads s ! i)) = Some a \<longrightarrow>
         a < length (entries s)) \<and>
      (\<forall>k a. inprogressMap s k = Some a \<longrightarrow> a < length (entries s)))"

definition leaders_open :: "('v, 'w) state \<Rightarrow> bool" where
  "leaders_open s =
     (\<forall>i a. i < length (threads s) \<longrightarrow> leads (tpc (threads s ! i)) = Some a \<longrightarrow>
        \<not> lockChannel (entries s ! a))"

definition leaders_distinct :: "('v, 'w) state \<Rightarrow> bool" where
  "leaders_distinct s =
     (\<forall>i j a. i < length (threads s) \<longrightarrow> j < length (threads s) \<longrightarrow> i \<noteq> j \<longrightarrow>
        leads (tpc (threads s ! i)) = Some a \<longrightarrow> leads (tpc (threads s ! j)) \<noteq> Some a)"

definition returned_closed :: "('v, 'w) state \<Rightarrow> bool" where
  "returned_closed s =
     (\<forall>i a r. i < length (threads s) \<longrightarrow> tpc (threads s ! i) = Returned a r \<longrightarrow>
        lockChannel (entries s ! a) \<and>
        r = (entry_value (entries s ! a), entry_err (entries s ! a)))"

definition holders_registered :: "('v, 'w) state \<Rightarrow> bool" where
  "holders_registered s =
     (\<forall>i a. i < length (threads s) \<longrightarrow> holds (tpc (threads s ! i)) = Some a \<longrightarrow>
        inprogressMap s (getCacheKey (tkey (threads s ! i))) = Some a)"

definition holders_distinct :: "('v, 'w) state \<Rightarrow> bool" where
  "holders_distinct s =
     (\<forall>i j. i < length (threads s) \<longrightarrow> j < length (threads s) \<longrightarrow> i \<noteq> j \<longrightarrow>
        holds (tpc (threads s ! i)) \<noteq> None \<longrightarrow> holds (tpc (threads s ! j)) \<noteq> None \<longrightarrow>
        getCacheKey (tkey (threads s ! i)) \<noteq> getCacheKey (tkey (threads s ! j)))"

definition invariant :: "('v, 'w) state \<Rightarrow> bool" where
  "invariant s =
     (addresses_valid s \<and> leaders_open s \<and> leaders_distinct s \<and> returned_closed s \<and>
      holders_registered s \<and> holders_distinct s)"

section \<open>Observations used in the properties\<close>

text \<open>The calls of the underlying store's \<open>Set\<close> in a list of calls.\<close>

fun isCallSet :: "'v call \<Rightarrow> bool" where
  "isCallSet (CallSet c k v options) = True"
| "isCallSet (CallGetWithTTL c k) = False"
| "isCallSet (CallLoad c k) = False"
| "isCallSet (CallShouldCache k v) = False"
| "isCallSet (CallPrintln v) = False"

definition setCalls :: "'v call list \<Rightarrow> 'v call list" where
  "setCalls cs = filter isCallSet cs"

text \<open>The calls a piece of code added to the list of calls.\<close>

definition newCalls :: "('v, 'w) env \<Rightarrow> ('v, 'w) env \<Rightarrow> 'v call list" where
  "newCalls \<sigma> \<sigma>' = drop (length (calls \<sigma>)) (calls \<sigma>')"

text \<open>
  The admission predicate, when one is configured, accepts the pair; with none
  configured every value is admitted.
\<close>

definition admitted :: "('v, 'w) StaleableCache \<Rightarrow> key \<Rightarrow> 'v \<Rightarrow> bool" where
  "admitted s k v = (case shouldCache s of None \<Rightarrow> True | Some p \<Rightarrow> p k v)"

text \<open>
  The expiration \<open>Set\<close> resolves from the caller's options: the one they carry, or the
  configured default when they carry none or carry 0.
\<close>

definition resolvedExpiration :: "('v, 'w) StaleableCache \<Rightarrow> Option list \<Rightarrow> duration" where
  "resolvedExpiration s options =
     (if receivedExpiration options = 0 then refreshTTL s else receivedExpiration options)"

section \<open>Further invariants\<close>


definition refresh_after_spawn :: "('v, 'w) state \<Rightarrow> bool" where
  "refresh_after_spawn s =
     (\<forall>g i a. g < length (threads s) \<longrightarrow> i < length (threads s) \<longrightarrow>
        refreshOf a (tpc (threads s ! g)) \<longrightarrow> leads (tpc (threads s ! i)) = Some a \<longrightarrow>
        tpc (threads s ! i) = Closing a)"

text \<open>
  What holds from the moment the call of thread \<open>i\<close> has found the value \<open>v\<close> of key
  \<open>k\<close> stale and kept it in record \<open>a\<close>: the call is about to start the goroutine, to
  close the channel, or has returned \<open>(v, nil)\<close>; the record keeps \<open>(v, nil)\<close>; the
  goroutines for the record work on key \<open>k\<close>, and there is one as soon as the call has
  passed the \<open>go\<close> statement.
\<close>

definition stale_served :: "nat \<Rightarrow> nat \<Rightarrow> key \<Rightarrow> 'v \<Rightarrow> ('v, 'w) state \<Rightarrow> bool" where
  "stale_served i a k v s =
     (i < length (threads s) \<and> a < length (entries s) \<and> tkey (threads s ! i) = k \<and>
      (tpc (threads s ! i) = Spawning a \<or> tpc (threads s ! i) = Closing a \<or>
       tpc (threads s ! i) = Returned a (v, None)) \<and>
      entry_value (entries s ! a) = v \<and> entry_err (entries s ! a) = None \<and>
      (\<forall>g. g < length (threads s) \<longrightarrow> refreshOf a (tpc (threads s ! g)) \<longrightarrow>
         tkey (threads s ! g) = k \<and> tpc (threads s ! i) \<noteq> Spawning a) \<and>
      (tpc (threads s ! i) = Spawning a \<or>
       (\<exists>g. g < length (threads s) \<and> refreshOf a (tpc (threads s ! g)))))"

section \<open>The scenario of the coalescing test\<close>





text \<open>
  \<open>setCount\<close>: how many times the underlying store's \<open>Set\<close> has been called.
  \<open>pendingWrites\<close>: how many calls have created a record and not yet come to the write.
\<close>

definition setCount :: "('v, 'w) state \<Rightarrow> nat" where
  "setCount s = length (setCalls (calls (senv s)))"

definition pendingWrites :: "('v, 'w) state \<Rightarrow> nat" where
  "pendingWrites s = length (filter (\<lambda>t. beforeWrite (tpc t)) (threads s))"

section \<open>Examples\<close>

text \<open>
  Values of type \<open>any\<close>, as the tests use them: \<open>nil\<close> or a string. \<open>nil\<close> is the zero
  value.
\<close>

datatype anyval = NilValue | Str string

instantiation anyval :: default
begin

definition default_anyval :: anyval where
  "default_anyval = NilValue"

instance ..

end

text \<open>A store and a loader for examples: the world counts the writes to the store.\<close>

definition absentStore :: "(anyval, nat) SetterCacheInterface" where
  "absentStore =
     \<lparr>cacheGetWithTTL = (\<lambda>c k w. ((NilValue, 0, Some NotFoundPtr), w)),
      cacheSet = (\<lambda>c k v options w. (None, Suc w))\<rparr>"

definition holdingStore :: "anyval \<Rightarrow> duration \<Rightarrow> (anyval, nat) SetterCacheInterface" where
  "holdingStore v t =
     \<lparr>cacheGetWithTTL = (\<lambda>c k w. ((v, t, None), w)),
      cacheSet = (\<lambda>c k v options w. (None, Suc w))\<rparr>"

definition failingStore :: "error \<Rightarrow> (anyval, nat) SetterCacheInterface" where
  "failingStore e =
     \<lparr>cacheGetWithTTL = (\<lambda>c k w. ((Str ''partial'', 7, Some e), w)),
      cacheSet = (\<lambda>c k v options w. (Some e, w))\<rparr>"

definition loadV :: "(anyval, 'w) LoadFunction" where
  "loadV c k w = ((Str ''V'', None), w)"

definition env0 :: "(anyval, nat) env" where
  "env0 = \<lparr>world = 0, calls = []\<rparr>"

definition readOnlyStore :: "(anyval, nat) SetterCacheInterface" where
  "readOnlyStore =
     \<lparr>cacheGetWithTTL = (\<lambda>c k w. ((NilValue, 0, Some NotFoundPtr), w)),
      cacheSet = (\<lambda>c k v options w. (Some (OtherError ''read-only''), w))\<rparr>"

definition loadFails :: "(anyval, nat) LoadFunction" where
  "loadFails c k w = ((NilValue, Some (OtherError ''load failed'')), w)"

text \<open>
  A call of \<open>Get\<close> that has just created the record for its key, and caches for it in
  the situations of the tests.
\<close>

definition leaderState :: "(anyval, nat) state" where
  "leaderState =
     \<lparr>senv = env0, inprogressMap = (\<lambda>k. None)(''my-key'' := Some 0),
      entries = [\<lparr>lockChannel = False, entry_value = NilValue, entry_err = None\<rparr>],
      threads = [\<lparr>tctx = CallerCtx 1, tkey = StringKey ''my-key'', tpc = Leading 0\<rparr>]\<rparr>"

definition freshCache :: "(anyval, nat) StaleableCache" where
  "freshCache = NewStaleable (holdingStore (Str ''cached'') (60 * Second))
     [WithMaxStaleCacheTTL Second, WithStaleCacheLoadFunction loadV]"

definition staleCache :: "(anyval, nat) StaleableCache" where
  "staleCache = NewStaleable (holdingStore (Str ''cached'') (3 * Second))
     [WithMaxStaleCacheTTL (5 * Second), WithStaleCacheLoadFunction loadV]"

definition expiredCache :: "(anyval, nat) StaleableCache" where
  "expiredCache = NewStaleable (holdingStore (Str ''cached'') (- Second))
     [WithTTL Second, WithMaxStaleCacheTTL (60 * Second), WithStaleCacheLoadFunction loadV]"

definition absentCache :: "(anyval, nat) StaleableCache" where
  "absentCache = NewStaleable absentStore
     [WithMaxStaleCacheTTL (3 * Second), WithStaleCacheLoadFunction loadV]"

definition noLoaderCache :: "(anyval, nat) StaleableCache" where
  "noLoaderCache = NewStaleable absentStore [WithMaxStaleCacheTTL (3 * Second)]"

definition rejectingCache :: "(anyval, nat) StaleableCache" where
  "rejectingCache = NewStaleable absentStore
     [WithMaxStaleCacheTTL (3 * Second), WithStaleCacheLoadFunction loadV,
      WithStaleCachePredicate (\<lambda>k v. False)]"

definition failingLoaderCache :: "(anyval, nat) StaleableCache" where
  "failingLoaderCache = NewStaleable absentStore
     [WithMaxStaleCacheTTL (3 * Second), WithStaleCacheLoadFunction loadFails]"

definition readOnlyCache :: "(anyval, nat) StaleableCache" where
  "readOnlyCache = NewStaleable readOnlyStore
     [WithMaxStaleCacheTTL (3 * Second), WithStaleCacheLoadFunction loadV]"








definition staleArrival :: "action list" where
  "staleArrival =
     [Call (CallerCtx 1) (StringKey ''my-key''), Call (CallerCtx 2) (StringKey ''my-key''),
      Run 0, Run 1]"

definition staleServed :: "action list" where
  "staleServed = [Run 0, Run 0, Run 2, Run 2, Run 2, Run 1]"

definition refreshFirst :: "action list" where
  "refreshFirst = [Run 0, Run 2, Run 2, Run 2]"

section \<open>Properties of GetWithTTL and Set\<close>

lemma sint_sub_exact:
  fixes t m :: duration
  assumes "- (2 ^ 63) \<le> sint t - sint m" and "sint t - sint m < 2 ^ 63"
  shows "sint (t - m) = sint t - sint m"
  using assms by (simp add: sint_word_ariths signed_take_bit_int_eq_self)

lemma receivedExpiration_Nil: "receivedExpiration [] = 0"
  by (simp add: receivedExpiration_def ApplyOptions_def emptyOptions_def)

lemma receivedExpiration_snoc: "receivedExpiration (options @ [WithExpiration d]) = d"
  by (simp add: receivedExpiration_def ApplyOptions_def)

lemma Set_eq:
  "Set s c k v options \<sigma> =
     (fst (cacheSet (cache s) c k v
             (options @ [WithExpiration (minimumTTL s + resolvedExpiration s options)]) (world \<sigma>)),
      \<sigma>\<lparr>world := snd (cacheSet (cache s) c k v
             (options @ [WithExpiration (minimumTTL s + resolvedExpiration s options)]) (world \<sigma>)),
        calls := calls \<sigma> @
          [CallSet c k v (options @ [WithExpiration (minimumTTL s + resolvedExpiration s options)])]\<rparr>)"
  by (simp add: Set_def Let_def receivedExpiration_def resolvedExpiration_def split: prod.splits)

text \<open>
  C2. When the underlying store answers \<open>(v, t, nil)\<close>, \<open>GetWithTTL\<close> returns the same
  value, the logical TTL \<open>t - minimumTTL\<close> and a nil error. The subtraction is the one of
  \<open>int64\<close>; read as integers it is the exact difference whenever that difference fits
  in 64 bits, negative results included. When the store answers an error, the error is
  returned and no margin is subtracted.
\<close>

theorem GetWithTTL_logical_ttl:
  "(cacheGetWithTTL (cache s) c k (world \<sigma>) = ((v, t, None), w) \<longrightarrow>
      fst (GetWithTTL s c k \<sigma>) = (v, t - minimumTTL s, None) \<and>
      (- (2 ^ 63) \<le> sint t - sint (minimumTTL s) \<and> sint t - sint (minimumTTL s) < 2 ^ 63 \<longrightarrow>
         sint (fst (snd (fst (GetWithTTL s c k \<sigma>)))) = sint t - sint (minimumTTL s))) \<and>
   (cacheGetWithTTL (cache s) c k (world \<sigma>) = ((v, t, Some e), w) \<longrightarrow>
      fst (GetWithTTL s c k \<sigma>) = (default, 0, Some e))"
  by (simp add: GetWithTTL_def Let_def sint_sub_exact split: prod.splits)

theorem GetWithTTL_logical_ttl_witness:
  "fst (GetWithTTL (NewStaleable (holdingStore (Str ''x'') (3 * Second)) [WithMaxStaleCacheTTL (5 * Second)])
          (CallerCtx 0) (StringKey ''my-key'') env0) = (Str ''x'', - (2 * Second), None) \<and>
   sint (fst (snd (fst (GetWithTTL
          (NewStaleable (holdingStore (Str ''x'') (3 * Second)) [WithMaxStaleCacheTTL (5 * Second)])
          (CallerCtx 0) (StringKey ''my-key'') env0)))) = - 2000000000 \<and>
   fst (GetWithTTL (NewStaleable (failingStore NotFoundVal) [WithMaxStaleCacheTTL (5 * Second)])
          (CallerCtx 0) (StringKey ''my-key'') env0) = (NilValue, 0, Some NotFoundVal)"
  using GetWithTTL_logical_ttl [of "NewStaleable (holdingStore (Str ''x'') (3 * Second)) [WithMaxStaleCacheTTL (5 * Second)]"
      "CallerCtx 0" "StringKey ''my-key''" env0 "Str ''x''" "3 * Second" 0 NotFoundVal]
    GetWithTTL_logical_ttl [of "NewStaleable (failingStore NotFoundVal) [WithMaxStaleCacheTTL (5 * Second)]"
      "CallerCtx 0" "StringKey ''my-key''" env0 "Str ''partial''" 7 0 NotFoundVal]
  by (simp add: NewStaleable_def WithMaxStaleCacheTTL_def holdingStore_def failingStore_def
      env0_def Second_def default_anyval_def)

text \<open>
  C10. Whenever the underlying store's \<open>GetWithTTL\<close> returns a non-nil error, the
  wrapper returns the zero value, the duration 0 and that error, whatever value and TTL
  the store returned beside the error.
\<close>

theorem GetWithTTL_error_zero:
  assumes "snd (snd (fst (cacheGetWithTTL (cache s) c k (world \<sigma>)))) = Some e"
  shows "fst (GetWithTTL s c k \<sigma>) = (default, 0, Some e)"
  using assms by (cases "cacheGetWithTTL (cache s) c k (world \<sigma>)") (auto simp: GetWithTTL_def Let_def)

theorem GetWithTTL_error_zero_witness:
  "snd (snd (fst (cacheGetWithTTL (cache (NewStaleable (failingStore (OtherError ''down''))
        [WithMaxStaleCacheTTL Second])) Background (StringKey ''my-key'') (world env0)))) =
     Some (OtherError ''down'') \<and>
   fst (GetWithTTL (NewStaleable (failingStore (OtherError ''down'')) [WithMaxStaleCacheTTL Second])
          Background (StringKey ''my-key'') env0) = (NilValue, 0, Some (OtherError ''down''))"
  using GetWithTTL_error_zero [of "NewStaleable (failingStore (OtherError ''down'')) [WithMaxStaleCacheTTL Second]"
      Background "StringKey ''my-key''" env0 "OtherError ''down''"]
  by (simp add: NewStaleable_def WithMaxStaleCacheTTL_def failingStore_def env0_def default_anyval_def)

text \<open>
  C5. \<open>Set\<close> calls the underlying store's \<open>Set\<close> once, with the caller's options followed
  by an expiration option, and the expiration the store reads from them is
  \<open>minimumTTL\<close> plus the resolved expiration: the caller's when it is not 0, the default
  \<open>refreshTTL\<close> otherwise. The store's error is returned unchanged. With margin 5s and a
  caller's expiration of 1s the store receives 6s.
\<close>

theorem Set_forwards_margin_plus_expiration:
  "Set s c k v options \<sigma> =
     (fst (cacheSet (cache s) c k v
             (options @ [WithExpiration (minimumTTL s + resolvedExpiration s options)]) (world \<sigma>)),
      \<sigma>\<lparr>world := snd (cacheSet (cache s) c k v
             (options @ [WithExpiration (minimumTTL s + resolvedExpiration s options)]) (world \<sigma>)),
        calls := calls \<sigma> @
          [CallSet c k v (options @ [WithExpiration (minimumTTL s + resolvedExpiration s options)])]\<rparr>) \<and>
   receivedExpiration (options @ [WithExpiration (minimumTTL s + resolvedExpiration s options)]) =
     minimumTTL s +
       (if receivedExpiration options = 0 then refreshTTL s else receivedExpiration options) \<and>
   receivedExpiration ([WithExpiration Second] @
       [WithExpiration (minimumTTL (s\<lparr>minimumTTL := 5 * Second\<rparr>) +
          resolvedExpiration (s\<lparr>minimumTTL := 5 * Second\<rparr>) [WithExpiration Second])]) = 6 * Second"
proof -
  have "receivedExpiration [WithExpiration Second] = Second"
    using receivedExpiration_snoc [of "[]" Second] by simp
  then have "resolvedExpiration (s\<lparr>minimumTTL := 5 * Second\<rparr>) [WithExpiration Second] = Second"
    by (simp add: resolvedExpiration_def Second_def)
  then have example: "receivedExpiration ([WithExpiration Second] @
       [WithExpiration (minimumTTL (s\<lparr>minimumTTL := 5 * Second\<rparr>) +
          resolvedExpiration (s\<lparr>minimumTTL := 5 * Second\<rparr>) [WithExpiration Second])]) = 6 * Second"
    unfolding receivedExpiration_snoc by (simp add: Second_def)
  have "receivedExpiration (options @ [WithExpiration (minimumTTL s + resolvedExpiration s options)]) =
     minimumTTL s +
       (if receivedExpiration options = 0 then refreshTTL s else receivedExpiration options)"
    unfolding receivedExpiration_snoc by (simp add: resolvedExpiration_def)
  with example Set_eq [of s c k v options \<sigma>] show ?thesis
    by blast
qed

text \<open>
  C9. Options whose expiration is 0, because the caller supplied an expiration of
  exactly 0 or supplied none, make \<open>Set\<close> forward \<open>minimumTTL\<close> plus the default
  \<open>refreshTTL\<close>: the two cases give the store the same expiration, and it differs from
  \<open>minimumTTL + 0\<close> whenever the default is not 0.
\<close>

theorem Set_zero_expiration_uses_default:
  "receivedExpiration [] = 0 \<and>
   receivedExpiration (options @ [WithExpiration 0]) = 0 \<and>
   (receivedExpiration options = 0 \<longrightarrow>
      calls (snd (Set s c k v options \<sigma>)) =
        calls \<sigma> @ [CallSet c k v (options @ [WithExpiration (minimumTTL s + refreshTTL s)])] \<and>
      receivedExpiration (options @ [WithExpiration (minimumTTL s + refreshTTL s)]) =
        minimumTTL s + refreshTTL s \<and>
      (refreshTTL s \<noteq> 0 \<longrightarrow>
         receivedExpiration (options @ [WithExpiration (minimumTTL s + refreshTTL s)]) \<noteq>
           minimumTTL s + 0))"
  by (simp add: Set_eq receivedExpiration_snoc receivedExpiration_Nil resolvedExpiration_def)

theorem Set_zero_expiration_uses_default_witness:
  "receivedExpiration [WithTags [''t''], WithExpiration 0] = 0 \<and>
   refreshTTL (NewStaleable absentStore [WithTTL Second, WithMaxStaleCacheTTL (5 * Second)]) \<noteq> 0 \<and>
   calls (snd (Set (NewStaleable absentStore [WithTTL Second, WithMaxStaleCacheTTL (5 * Second)])
       Background (StringKey ''k'') (Str ''v'') [WithTags [''t''], WithExpiration 0] env0)) =
     [CallSet Background (StringKey ''k'') (Str ''v'')
        [WithTags [''t''], WithExpiration 0, WithExpiration (6 * Second)]] \<and>
   calls (snd (Set (NewStaleable absentStore [WithTTL Second, WithMaxStaleCacheTTL (5 * Second)])
       Background (StringKey ''k'') (Str ''v'') [] env0)) =
     [CallSet Background (StringKey ''k'') (Str ''v'') [WithExpiration (6 * Second)]] \<and>
   receivedExpiration [WithTags [''t''], WithExpiration 0, WithExpiration (6 * Second)] \<noteq> 5 * Second"
  using Set_zero_expiration_uses_default [of "[WithTags [''t'']]"
      "NewStaleable absentStore [WithTTL Second, WithMaxStaleCacheTTL (5 * Second)]"
      Background "StringKey ''k''" "Str ''v''" env0]
    Set_zero_expiration_uses_default [of "[WithTags [''t''], WithExpiration 0]"
      "NewStaleable absentStore [WithTTL Second, WithMaxStaleCacheTTL (5 * Second)]"
      Background "StringKey ''k''" "Str ''v''" env0]
    Set_zero_expiration_uses_default [of "[]"
      "NewStaleable absentStore [WithTTL Second, WithMaxStaleCacheTTL (5 * Second)]"
      Background "StringKey ''k''" "Str ''v''" env0]
  by (simp add: NewStaleable_def WithTTL_def WithMaxStaleCacheTTL_def env0_def Second_def)

section \<open>Properties of loadAndStore\<close>

lemmas example_defs = leaderState_def freshCache_def staleCache_def expiredCache_def absentCache_def
  noLoaderCache_def rejectingCache_def failingLoaderCache_def readOnlyCache_def
  NewStaleable_def WithTTL_def WithMaxStaleCacheTTL_def WithStaleCacheLoadFunction_def
  WithStaleCachePredicate_def holdingStore_def absentStore_def readOnlyStore_def failingStore_def
  loadV_def loadFails_def env0_def Second_def default_anyval_def

lemma newCalls_append [simp]: "newCalls \<sigma> (\<sigma>'\<lparr>calls := calls \<sigma> @ xs\<rparr>) = xs"
  by (simp add: newCalls_def)

lemma newCalls_self [simp]: "newCalls \<sigma> \<sigma> = []"
  by (simp add: newCalls_def)

lemma loadAndStore_cases:
  "loadAndStore s c k \<sigma> =
     (case loadFunc s of
        None \<Rightarrow> ((default, None), \<sigma>)
      | Some f \<Rightarrow>
          (case f c k (world \<sigma>) of
             ((res, Some e), w) \<Rightarrow> ((res, Some e), \<sigma>\<lparr>world := w, calls := calls \<sigma> @ [CallLoad c k]\<rparr>)
           | ((res, None), w) \<Rightarrow>
               (case shouldCache s of
                  None \<Rightarrow>
                    ((res, None),
                     \<sigma>\<lparr>world := snd (cacheSet (cache s) c k res [WithExpiration (minimumTTL s + refreshTTL s)] w),
                       calls := calls \<sigma> @ [CallLoad c k,
                         CallSet c k res [WithExpiration (minimumTTL s + refreshTTL s)]]\<rparr>)
                | Some p \<Rightarrow>
                    if p k res
                    then ((res, None),
                     \<sigma>\<lparr>world := snd (cacheSet (cache s) c k res [WithExpiration (minimumTTL s + refreshTTL s)] w),
                       calls := calls \<sigma> @ [CallLoad c k, CallShouldCache k res,
                         CallSet c k res [WithExpiration (minimumTTL s + refreshTTL s)]]\<rparr>)
                    else ((res, None), \<sigma>\<lparr>world := w, calls := calls \<sigma> @ [CallLoad c k, CallShouldCache k res]\<rparr>))))"
  by (simp add: loadAndStore_def loadAndStore_load_def loadAndStore_store_def Set_eq Let_def
      resolvedExpiration_def receivedExpiration_Nil
      split: option.splits prod.splits)

text \<open>
  C6. In \<open>loadAndStore\<close> the underlying store's \<open>Set\<close> is called if and only if a load
  function is configured, it returns no error and the admission predicate, when there is
  one, accepts the loaded value. When the load fails, its value and error are returned
  and the store is not touched; when the predicate rejects the value, the loaded value is
  returned with a nil error and the store is not touched; otherwise the loaded value is
  returned and exactly one write is made, with the extended expiration.
\<close>

theorem loadAndStore_writes_iff_admitted:
  "((\<exists>x \<in> set (newCalls \<sigma> (snd (loadAndStore s c k \<sigma>))). isCallSet x) \<longleftrightarrow>
      (\<exists>f. loadFunc s = Some f \<and> snd (fst (f c k (world \<sigma>))) = None \<and>
           admitted s k (fst (fst (f c k (world \<sigma>)))))) \<and>
   (loadFunc s = Some f \<and> f c k (world \<sigma>) = ((res, Some e), w) \<longrightarrow>
      loadAndStore s c k \<sigma> = ((res, Some e), \<sigma>\<lparr>world := w, calls := calls \<sigma> @ [CallLoad c k]\<rparr>)) \<and>
   (loadFunc s = Some f \<and> f c k (world \<sigma>) = ((res, None), w) \<and> \<not> admitted s k res \<longrightarrow>
      loadAndStore s c k \<sigma> =
        ((res, None), \<sigma>\<lparr>world := w, calls := calls \<sigma> @ [CallLoad c k, CallShouldCache k res]\<rparr>)) \<and>
   (loadFunc s = Some f \<and> f c k (world \<sigma>) = ((res, None), w) \<and> admitted s k res \<longrightarrow>
      fst (loadAndStore s c k \<sigma>) = (res, None) \<and>
      setCalls (newCalls \<sigma> (snd (loadAndStore s c k \<sigma>))) =
        [CallSet c k res [WithExpiration (minimumTTL s + refreshTTL s)]] \<and>
      world (snd (loadAndStore s c k \<sigma>)) =
        snd (cacheSet (cache s) c k res [WithExpiration (minimumTTL s + refreshTTL s)] w))"
  apply (intro conjI)
  subgoal by (auto simp: loadAndStore_cases admitted_def split: option.splits prod.splits)
  subgoal by (auto simp: loadAndStore_cases admitted_def split: option.splits prod.splits)
  subgoal by (auto simp: loadAndStore_cases admitted_def split: option.splits prod.splits)
  subgoal by (auto simp: loadAndStore_cases admitted_def setCalls_def split: option.splits prod.splits)
  done

theorem loadAndStore_writes_iff_admitted_witness:
  "(\<exists>x \<in> set (newCalls env0 (snd (loadAndStore absentCache Background (StringKey ''k'') env0))). isCallSet x) \<and>
   newCalls env0 (snd (loadAndStore absentCache Background (StringKey ''k'') env0)) =
     [CallLoad Background (StringKey ''k''),
      CallSet Background (StringKey ''k'') (Str ''V'') [WithExpiration (3 * Second)]] \<and>
   world (snd (loadAndStore absentCache Background (StringKey ''k'') env0)) = 1 \<and>
   loadFunc failingLoaderCache = Some loadFails \<and>
   loadAndStore failingLoaderCache Background (StringKey ''k'') env0 =
     ((NilValue, Some (OtherError ''load failed'')),
      env0\<lparr>world := 0, calls := calls env0 @ [CallLoad Background (StringKey ''k'')]\<rparr>) \<and>
   \<not> admitted rejectingCache (StringKey ''k'') (Str ''V'') \<and>
   loadAndStore rejectingCache Background (StringKey ''k'') env0 =
     ((Str ''V'', None),
      env0\<lparr>world := 0, calls := calls env0 @
        [CallLoad Background (StringKey ''k''), CallShouldCache (StringKey ''k'') (Str ''V'')]\<rparr>) \<and>
   \<not> (\<exists>x \<in> set (newCalls env0 (snd (loadAndStore noLoaderCache Background (StringKey ''k'') env0))).
        isCallSet x)"
  using loadAndStore_writes_iff_admitted [of env0 absentCache Background "StringKey ''k''"
      loadV "Str ''V''" "OtherError ''load failed''" 0]
    loadAndStore_writes_iff_admitted [of env0 failingLoaderCache Background "StringKey ''k''"
      loadFails NilValue "OtherError ''load failed''" 0]
    loadAndStore_writes_iff_admitted [of env0 rejectingCache Background "StringKey ''k''"
      loadV "Str ''V''" "OtherError ''load failed''" 0]
    loadAndStore_writes_iff_admitted [of env0 noLoaderCache Background "StringKey ''k''"
      loadV "Str ''V''" "OtherError ''load failed''" 0]
  by (simp add: example_defs admitted_def loadAndStore_cases newCalls_def)

section \<open>Properties of one call of Get\<close>

lemma setPc_simps [simp]:
  "senv (setPc i p s) = senv s"
  "inprogressMap (setPc i p s) = inprogressMap s"
  "entries (setPc i p s) = entries s"
  "threads (setPc i p s) = (threads s)[i := (threads s ! i)\<lparr>tpc := p\<rparr>]"
  by (simp_all add: setPc_def)

lemma setResult_simps [simp]:
  "senv (setResult a r s) = senv s"
  "inprogressMap (setResult a r s) = inprogressMap s"
  "threads (setResult a r s) = threads s"
  "entries (setResult a r s) = (entries s)[a := (entries s ! a)\<lparr>entry_value := fst r, entry_err := snd r\<rparr>]"
  by (simp_all add: setResult_def)

lemma step_Leading:
  assumes "i < length (threads s)" and "tpc (threads s ! i) = Leading a"
  shows "step c i s =
     (let t = threads s ! i;
          g = GetWithTTL c (tctx t) (tkey t) (senv s);
          s1 = setResult a (fst (fst g), snd (snd (fst g))) (s\<lparr>senv := snd g\<rparr>)
      in setPc i
           (case snd (snd (fst g)) of
              Some e \<Rightarrow> if isNotFoundPtr e then Loading a else Deleting a
            | None \<Rightarrow> if fst (snd (fst g)) + minimumTTL c <s 0 then Loading a
                      else if fst (snd (fst g)) <s 0 then Spawning a else Deleting a) s1)"
  using assms by (simp add: step_def Let_def split: prod.splits option.splits)

lemma step_Loading:
  assumes "i < length (threads s)" and "tpc (threads s ! i) = Loading a"
  shows "step c i s =
     (let t = threads s ! i;
          l = loadAndStore_load c (tctx t) (tkey t) (senv s)
      in if snd (fst l) then setPc i (Storing a (fst (fst l))) (s\<lparr>senv := snd l\<rparr>)
         else setPc i (Deleting a) (setResult a (fst (fst l)) (s\<lparr>senv := snd l\<rparr>)))"
  using assms by (simp add: step_def Let_def split: prod.splits)

lemma step_Storing:
  assumes "i < length (threads s)" and "tpc (threads s ! i) = Storing a r"
  shows "step c i s =
     (let t = threads s ! i;
          l = loadAndStore_store c (tctx t) (tkey t) r (senv s)
      in setPc i (Deleting a) (setResult a (fst l) (s\<lparr>senv := snd l\<rparr>)))"
  using assms by (simp add: step_def Let_def split: prod.splits)

lemma step_Deleting:
  assumes "i < length (threads s)" and "tpc (threads s ! i) = Deleting a"
  shows "step c i s =
     setPc i (Closing a) (s\<lparr>inprogressMap := (inprogressMap s)(getCacheKey (tkey (threads s ! i)) := None)\<rparr>)"
  using assms by (simp add: step_def Let_def)

lemma step_Spawning:
  assumes "i < length (threads s)" and "tpc (threads s ! i) = Spawning a"
  shows "step c i s =
     setPc i (Closing a)
       (s\<lparr>threads := threads s @
           [\<lparr>tctx = tctx (threads s ! i), tkey = tkey (threads s ! i), tpc = BgLoading a\<rparr>]\<rparr>)"
  using assms by (simp add: step_def Let_def)

lemma step_Closing:
  assumes "i < length (threads s)" and "tpc (threads s ! i) = Closing a"
  shows "step c i s =
     setPc i (Returned a (entry_value (entries s ! a), entry_err (entries s ! a)))
       (s\<lparr>entries := (entries s)[a := (entries s ! a)\<lparr>lockChannel := True\<rparr>]\<rparr>)"
  using assms by (simp add: step_def Let_def)

lemma run_Nil [simp]: "run c s [] = s"
  by (simp add: run_def)

lemma run_Cons [simp]: "run c s (x # xs) = run c (perform c s x) xs"
  by (simp add: run_def)

lemma GetWithTTL_value:
  assumes "cacheGetWithTTL (cache c) cx k (world \<sigma>) = ((v, t, None), w)"
  shows "GetWithTTL c cx k \<sigma> =
    ((v, t - minimumTTL c, None), \<sigma>\<lparr>world := w, calls := calls \<sigma> @ [CallGetWithTTL cx k, CallPrintln v]\<rparr>)"
  using assms by (simp add: GetWithTTL_def)

lemma GetWithTTL_error:
  assumes "cacheGetWithTTL (cache c) cx k (world \<sigma>) = ((v, t, Some e), w)"
  shows "GetWithTTL c cx k \<sigma> =
    ((default, 0, Some e), \<sigma>\<lparr>world := w, calls := calls \<sigma> @ [CallGetWithTTL cx k, CallPrintln v]\<rparr>)"
  using assms by (simp add: GetWithTTL_def)

lemma fresh_iff:
  fixes t m :: duration
  assumes "0 \<le> sint m"
  shows "(t - m + m <s 0) = (sint t - sint m < - sint m)"
    and "\<not> (t - m + m <s 0) \<Longrightarrow> (t - m <s 0) = (sint t - sint m < 0)"
proof -
  show "(t - m + m <s 0) = (sint t - sint m < - sint m)"
    by (simp add: word_sless_alt)
  assume "\<not> (t - m + m <s 0)"
  then have t0: "0 \<le> sint t" by (simp add: word_sless_alt)
  have "sint t < 2 ^ 63" "sint m < 2 ^ 63" "- (2 ^ 63) \<le> sint m"
    using sint_lt [of t] sint_lt [of m] sint_ge [of m] by simp_all
  with t0 assms have "sint (t - m) = sint t - sint m"
    by (intro sint_sub_exact) simp_all
  then show "(t - m <s 0) = (sint t - sint m < 0)"
    by (simp add: word_sless_alt)
qed

lemma step_Returned:
  assumes "tpc (threads s ! i) = Returned a r"
  shows "step c i s = s"
  using assms by (simp add: step_def Let_def)

lemma result_setPc:
  assumes "i < length (threads s)"
  shows "result (setPc i p s) i = (case p of Returned a r \<Rightarrow> Some r | _ \<Rightarrow> None)"
  using assms by (simp add: result_def)

lemma leader_finish:
  assumes "i < length (threads s)" and "tpc (threads s ! i) = Deleting a"
  shows "result (run c s [Run i, Run i]) i = Some (entry_value (entries s ! a), entry_err (entries s ! a))"
    and "senv (run c s [Run i, Run i]) = senv s"
    and "inprogressMap (run c s [Run i, Run i]) = (inprogressMap s)(getCacheKey (tkey (threads s ! i)) := None)"
    and "length (threads (run c s [Run i, Run i])) = length (threads s)"
  using assms by (simp_all add: step_Deleting step_Closing result_def)

lemma leader_finish_more:
  assumes "i < length (threads s)" and "tpc (threads s ! i) = Deleting a"
  shows "run c s (Run i # Run i # Run i # as) = run c s (Run i # Run i # as)"
proof -
  have "tpc (threads (run c s [Run i, Run i]) ! i) =
      Returned a (entry_value (entries s ! a), entry_err (entries s ! a))"
    using assms by (simp add: step_Deleting step_Closing)
  then have "step c i (run c s [Run i, Run i]) = run c s [Run i, Run i]"
    by (rule step_Returned)
  then show ?thesis by simp
qed

lemma leader_reload:
  assumes "i < length (threads s)" and "threads s ! i = \<lparr>tctx = cx, tkey = k, tpc = Loading a\<rparr>"
    and "a < length (entries s)"
  shows "result (run c s [Run i, Run i, Run i, Run i]) i = Some (fst (loadAndStore c cx k (senv s)))"
    and "senv (run c s [Run i, Run i, Run i, Run i]) = snd (loadAndStore c cx k (senv s))"
proof -
  obtain r writing \<sigma> where l: "loadAndStore_load c cx k (senv s) = ((r, writing), \<sigma>)"
    by (metis surj_pair)
  show "result (run c s [Run i, Run i, Run i, Run i]) i = Some (fst (loadAndStore c cx k (senv s)))"
  proof (cases writing)
    case True
    obtain r' \<sigma>' where st: "loadAndStore_store c cx k r \<sigma> = (r', \<sigma>')"
      by (metis surj_pair)
    from True l st assms show ?thesis
      by (simp add: step_Loading step_Storing step_Deleting step_Closing result_def
          loadAndStore_def Let_def)
  next
    case False
    with l assms show ?thesis
      by (simp add: step_Loading step_Deleting step_Closing step_Returned result_def
          loadAndStore_def Let_def)
  qed
  show "senv (run c s [Run i, Run i, Run i, Run i]) = snd (loadAndStore c cx k (senv s))"
  proof (cases writing)
    case True
    obtain r' \<sigma>' where st: "loadAndStore_store c cx k r \<sigma> = (r', \<sigma>')"
      by (metis surj_pair)
    from True l st assms show ?thesis
      by (simp add: step_Loading step_Storing step_Deleting step_Closing result_def
          loadAndStore_def Let_def)
  next
    case False
    with l assms show ?thesis
      by (simp add: step_Loading step_Deleting step_Closing step_Returned result_def
          loadAndStore_def Let_def)
  qed
qed

lemma leader_read_value:
  assumes i: "i < length (threads s)"
    and th: "threads s ! i = \<lparr>tctx = cx, tkey = k, tpc = Leading a\<rparr>"
    and st: "cacheGetWithTTL (cache c) cx k (world (senv s)) = ((v, ttl, None), w)"
  shows "step c i s =
     setPc i (if ttl - minimumTTL c + minimumTTL c <s 0 then Loading a
              else if ttl - minimumTTL c <s 0 then Spawning a else Deleting a)
       (setResult a (v, None) (s\<lparr>senv := snd (GetWithTTL c cx k (senv s))\<rparr>))"
  using i th by (simp add: step_Leading GetWithTTL_value [OF st] Let_def)

lemma leader_read_error:
  assumes i: "i < length (threads s)"
    and th: "threads s ! i = \<lparr>tctx = cx, tkey = k, tpc = Leading a\<rparr>"
    and st: "cacheGetWithTTL (cache c) cx k (world (senv s)) = ((v, ttl, Some e), w)"
  shows "step c i s =
     setPc i (if isNotFoundPtr e then Loading a else Deleting a)
       (setResult a (default, Some e) (s\<lparr>senv := snd (GetWithTTL c cx k (senv s))\<rparr>))"
  using i th by (simp add: step_Leading GetWithTTL_error [OF st] Let_def)


text \<open>
  C1. Let a call of \<open>Get\<close> hold the record it created for its key, with a margin
  \<open>minimumTTL \<ge> 0\<close>, and let the logical remaining TTL be the stored TTL minus the margin,
  as integers. When the store answers a value without error:
  \<^item> logical TTL \<open>\<ge> 0\<close> (FRESH): the call goes on to delete the record and returns the
    cached value with a nil error; the only collaborator call is the read of the store;
  \<^item> \<open>- minimumTTL \<le>\<close> logical TTL \<open>< 0\<close> (STALE): the call goes on to start the
    background goroutine;
  \<^item> logical TTL \<open>< - minimumTTL\<close> (EXPIRED_OR_MISSING): the call runs \<open>loadAndStore\<close>
    itself, under its own context, and returns what that returns.
  When the store answers the error \<open>*store.NotFound\<close>, the call does the same as in the
  last case.
\<close>

theorem Get_classifies_by_logical_ttl:
  assumes i: "i < length (threads s)"
    and th: "threads s ! i = \<lparr>tctx = cx, tkey = k, tpc = Leading a\<rparr>"
    and a: "a < length (entries s)"
    and m: "0 \<le> sint (minimumTTL c)"
  shows
   "(cacheGetWithTTL (cache c) cx k (world (senv s)) = ((v, ttl, None), w) \<and>
       0 \<le> sint ttl - sint (minimumTTL c) \<longrightarrow>
         tpc (threads (step c i s) ! i) = Deleting a \<and>
         result (run c s [Run i, Run i, Run i]) i = Some (v, None) \<and>
         newCalls (senv s) (senv (run c s [Run i, Run i, Run i])) =
           [CallGetWithTTL cx k, CallPrintln v]) \<and>
    (cacheGetWithTTL (cache c) cx k (world (senv s)) = ((v, ttl, None), w) \<and>
       - sint (minimumTTL c) \<le> sint ttl - sint (minimumTTL c) \<and>
       sint ttl - sint (minimumTTL c) < 0 \<longrightarrow>
         tpc (threads (step c i s) ! i) = Spawning a) \<and>
    ((cacheGetWithTTL (cache c) cx k (world (senv s)) = ((v, ttl, None), w) \<and>
        sint ttl - sint (minimumTTL c) < - sint (minimumTTL c)) \<or>
      cacheGetWithTTL (cache c) cx k (world (senv s)) = ((v, ttl, Some NotFoundPtr), w) \<longrightarrow>
         tpc (threads (step c i s) ! i) = Loading a \<and>
         result (run c s [Run i, Run i, Run i, Run i, Run i]) i =
           Some (fst (loadAndStore c cx k (snd (GetWithTTL c cx k (senv s))))) \<and>
         senv (run c s [Run i, Run i, Run i, Run i, Run i]) =
           snd (loadAndStore c cx k (snd (GetWithTTL c cx k (senv s)))))"
proof (intro conjI impI)
  assume h: "cacheGetWithTTL (cache c) cx k (world (senv s)) = ((v, ttl, None), w) \<and>
       0 \<le> sint ttl - sint (minimumTTL c)"
  then have st: "cacheGetWithTTL (cache c) cx k (world (senv s)) = ((v, ttl, None), w)" by simp
  from h m have c1: "\<not> (ttl - minimumTTL c + minimumTTL c <s 0)"
    by (simp add: word_sless_alt)
  from h have c2: "\<not> (ttl - minimumTTL c <s 0)"
    using fresh_iff(2) [OF m c1] by simp
  have s1: "step c i s = setPc i (Deleting a)
       (setResult a (v, None) (s\<lparr>senv := snd (GetWithTTL c cx k (senv s))\<rparr>))"
    using leader_read_value [OF i th st] c1 c2 by simp
  show "tpc (threads (step c i s) ! i) = Deleting a"
    using i by (simp add: s1)
  have i1: "i < length (threads (step c i s))" and d1: "tpc (threads (step c i s) ! i) = Deleting a"
    using i by (simp_all add: s1)
  show "result (run c s [Run i, Run i, Run i]) i = Some (v, None)"
    using leader_finish(1) [OF i1 d1, of c] a by (simp add: s1)
  show "newCalls (senv s) (senv (run c s [Run i, Run i, Run i])) = [CallGetWithTTL cx k, CallPrintln v]"
    using leader_finish(2) [OF i1 d1, of c] by (simp add: s1 GetWithTTL_value [OF st] newCalls_def)
next
  assume h: "cacheGetWithTTL (cache c) cx k (world (senv s)) = ((v, ttl, None), w) \<and>
       - sint (minimumTTL c) \<le> sint ttl - sint (minimumTTL c) \<and>
       sint ttl - sint (minimumTTL c) < 0"
  then have st: "cacheGetWithTTL (cache c) cx k (world (senv s)) = ((v, ttl, None), w)" by simp
  from h have c1: "\<not> (ttl - minimumTTL c + minimumTTL c <s 0)"
    by (simp add: word_sless_alt)
  from h have c2: "ttl - minimumTTL c <s 0"
    using fresh_iff(2) [OF m c1] by simp
  show "tpc (threads (step c i s) ! i) = Spawning a"
    using leader_read_value [OF i th st] c1 c2 i by simp
next
  assume h: "(cacheGetWithTTL (cache c) cx k (world (senv s)) = ((v, ttl, None), w) \<and>
        sint ttl - sint (minimumTTL c) < - sint (minimumTTL c)) \<or>
      cacheGetWithTTL (cache c) cx k (world (senv s)) = ((v, ttl, Some NotFoundPtr), w)"
  have "\<exists>r. step c i s = setPc i (Loading a)
       (setResult a r (s\<lparr>senv := snd (GetWithTTL c cx k (senv s))\<rparr>))"
  proof (rule disjE [OF h])
    assume h1: "cacheGetWithTTL (cache c) cx k (world (senv s)) = ((v, ttl, None), w) \<and>
        sint ttl - sint (minimumTTL c) < - sint (minimumTTL c)"
    then have c1: "ttl - minimumTTL c + minimumTTL c <s 0"
      by (simp add: word_sless_alt)
    from h1 have st: "cacheGetWithTTL (cache c) cx k (world (senv s)) = ((v, ttl, None), w)" by simp
    show ?thesis using leader_read_value [OF i th st] c1 by auto
  next
    assume st: "cacheGetWithTTL (cache c) cx k (world (senv s)) = ((v, ttl, Some NotFoundPtr), w)"
    show ?thesis using leader_read_error [OF i th st] by auto
  qed
  then obtain r where s1: "step c i s = setPc i (Loading a)
       (setResult a r (s\<lparr>senv := snd (GetWithTTL c cx k (senv s))\<rparr>))" ..
  show "tpc (threads (step c i s) ! i) = Loading a"
    using i by (simp add: s1)
  have i1: "i < length (threads (step c i s))"
    and t1: "threads (step c i s) ! i = \<lparr>tctx = cx, tkey = k, tpc = Loading a\<rparr>"
    and a1: "a < length (entries (step c i s))"
    and e1: "senv (step c i s) = snd (GetWithTTL c cx k (senv s))"
    using i th a by (simp_all add: s1)
  show "result (run c s [Run i, Run i, Run i, Run i, Run i]) i =
           Some (fst (loadAndStore c cx k (snd (GetWithTTL c cx k (senv s)))))"
    using leader_reload(1) [OF i1 t1 a1, of c] by (simp add: e1)
  show "senv (run c s [Run i, Run i, Run i, Run i, Run i]) =
           snd (loadAndStore c cx k (snd (GetWithTTL c cx k (senv s))))"
    using leader_reload(2) [OF i1 t1 a1, of c] by (simp add: e1)
qed

theorem Get_classifies_by_logical_ttl_witness:
  "result (run freshCache leaderState [Run 0, Run 0, Run 0]) 0 = Some (Str ''cached'', None) \<and>
   newCalls (senv leaderState) (senv (run freshCache leaderState [Run 0, Run 0, Run 0])) =
     [CallGetWithTTL (CallerCtx 1) (StringKey ''my-key''), CallPrintln (Str ''cached'')] \<and>
   tpc (threads (step staleCache 0 leaderState) ! 0) = Spawning 0 \<and>
   tpc (threads (step expiredCache 0 leaderState) ! 0) = Loading 0 \<and>
   result (run expiredCache leaderState [Run 0, Run 0, Run 0, Run 0, Run 0]) 0 = Some (Str ''V'', None) \<and>
   tpc (threads (step absentCache 0 leaderState) ! 0) = Loading 0 \<and>
   result (run absentCache leaderState [Run 0, Run 0, Run 0, Run 0, Run 0]) 0 = Some (Str ''V'', None)"
  using Get_classifies_by_logical_ttl [of 0 leaderState "CallerCtx 1" "StringKey ''my-key''" 0 freshCache "Str ''cached''" "60 * Second" 0]
    Get_classifies_by_logical_ttl [of 0 leaderState "CallerCtx 1" "StringKey ''my-key''" 0 staleCache "Str ''cached''" "3 * Second" 0]
    Get_classifies_by_logical_ttl [of 0 leaderState "CallerCtx 1" "StringKey ''my-key''" 0 expiredCache "Str ''cached''" "- Second" 0]
    Get_classifies_by_logical_ttl [of 0 leaderState "CallerCtx 1" "StringKey ''my-key''" 0 absentCache NilValue 0 0]
  by (simp add: example_defs loadAndStore_def loadAndStore_load_def loadAndStore_store_def Set_eq GetWithTTL_def)

lemma fst_loadAndStore:
  "fst (loadAndStore c cx k \<sigma>) =
     (case loadFunc c of None \<Rightarrow> (default, None) | Some f \<Rightarrow> fst (f cx k (world \<sigma>)))"
  by (simp add: loadAndStore_def loadAndStore_load_def loadAndStore_store_def Let_def
      split: option.splits prod.splits)

lemma world_GetWithTTL: "world (snd (GetWithTTL c cx k \<sigma>)) = snd (cacheGetWithTTL (cache c) cx k (world \<sigma>))"
  by (simp add: GetWithTTL_def Let_def split: prod.splits option.splits)



text \<open>
  Every other error of the store's read, the struct value \<open>store.NotFound{}\<close> of the
  tests included, is returned to the caller with the zero value, and nothing is loaded.
\<close>

lemma Get_returns_other_errors:
  assumes i: "i < length (threads s)"
    and th: "threads s ! i = \<lparr>tctx = cx, tkey = k, tpc = Leading a\<rparr>"
    and a: "a < length (entries s)"
    and st: "cacheGetWithTTL (cache c) cx k (world (senv s)) = ((v, ttl, Some e), w)"
    and e: "\<not> isNotFoundPtr e"
  shows "result (run c s [Run i, Run i, Run i]) i = Some (default, Some e)"
    and "newCalls (senv s) (senv (run c s [Run i, Run i, Run i])) = [CallGetWithTTL cx k, CallPrintln v]"
proof -
  have s1: "step c i s = setPc i (Deleting a)
       (setResult a (default, Some e) (s\<lparr>senv := snd (GetWithTTL c cx k (senv s))\<rparr>))"
    using leader_read_error [OF i th st] e by simp
  have i1: "i < length (threads (step c i s))" and d1: "tpc (threads (step c i s) ! i) = Deleting a"
    using i by (simp_all add: s1)
  show "result (run c s [Run i, Run i, Run i]) i = Some (default, Some e)"
    using leader_finish(1) [OF i1 d1, of c] a by (simp add: s1)
  show "newCalls (senv s) (senv (run c s [Run i, Run i, Run i])) = [CallGetWithTTL cx k, CallPrintln v]"
    using leader_finish(2) [OF i1 d1, of c] by (simp add: s1 GetWithTTL_error [OF st] newCalls_def)
qed

text \<open>
  C7. When \<open>Get\<close> reloads synchronously, the load succeeds, the value is admitted and
  the underlying store's \<open>Set\<close> returns an error, the caller of \<open>Get\<close> still receives
  the loaded value with a nil error; the write was attempted once.
\<close>

theorem Get_discards_write_error:
  assumes i: "i < length (threads s)"
    and th: "threads s ! i = \<lparr>tctx = cx, tkey = k, tpc = Leading a\<rparr>"
    and a: "a < length (entries s)"
    and st: "(cacheGetWithTTL (cache c) cx k (world (senv s)) = ((v, ttl, None), w) \<and> sint ttl < 0) \<or>
             cacheGetWithTTL (cache c) cx k (world (senv s)) = ((v, ttl, Some NotFoundPtr), w)"
    and ld: "loadFunc c = Some f" "f cx k w = ((res, None), w')"
    and ad: "admitted c k res"
    and wr: "fst (cacheSet (cache c) cx k res [WithExpiration (minimumTTL c + refreshTTL c)] w') = Some e"
  shows "fst (loadAndStore c cx k (snd (GetWithTTL c cx k (senv s)))) = (res, None) \<and>
         fst (Set c cx k res [] (snd (loadAndStore_load c cx k (snd (GetWithTTL c cx k (senv s)))))) = Some e \<and>
         result (run c s [Run i, Run i, Run i, Run i, Run i]) i = Some (res, None) \<and>
         setCalls (newCalls (senv s) (senv (run c s [Run i, Run i, Run i, Run i, Run i]))) =
           [CallSet cx k res [WithExpiration (minimumTTL c + refreshTTL c)]]"
proof -
  have w: "world (snd (GetWithTTL c cx k (senv s))) = w"
    using st by (auto simp: world_GetWithTTL)
  have "\<exists>r. step c i s = setPc i (Loading a)
       (setResult a r (s\<lparr>senv := snd (GetWithTTL c cx k (senv s))\<rparr>))"
  proof (rule disjE [OF st])
    assume h1: "cacheGetWithTTL (cache c) cx k (world (senv s)) = ((v, ttl, None), w) \<and> sint ttl < 0"
    then have c1: "ttl - minimumTTL c + minimumTTL c <s 0"
      by (simp add: word_sless_alt)
    from h1 have st': "cacheGetWithTTL (cache c) cx k (world (senv s)) = ((v, ttl, None), w)" by simp
    show ?thesis using leader_read_value [OF i th st'] c1 by auto
  next
    assume st': "cacheGetWithTTL (cache c) cx k (world (senv s)) = ((v, ttl, Some NotFoundPtr), w)"
    show ?thesis using leader_read_error [OF i th st'] by auto
  qed
  then obtain r where s1: "step c i s = setPc i (Loading a)
       (setResult a r (s\<lparr>senv := snd (GetWithTTL c cx k (senv s))\<rparr>))" ..
  have i1: "i < length (threads (step c i s))"
    and t1: "threads (step c i s) ! i = \<lparr>tctx = cx, tkey = k, tpc = Loading a\<rparr>"
    and a1: "a < length (entries (step c i s))"
    and e1: "senv (step c i s) = snd (GetWithTTL c cx k (senv s))"
    using i th a by (simp_all add: s1)
  have las: "fst (loadAndStore c cx k (snd (GetWithTTL c cx k (senv s)))) = (res, None)"
    by (simp add: fst_loadAndStore w ld)
  have r: "result (run c s [Run i, Run i, Run i, Run i, Run i]) i = Some (res, None)"
    using leader_reload(1) [OF i1 t1 a1, of c] by (simp add: e1 las)
  have env: "senv (run c s [Run i, Run i, Run i, Run i, Run i]) =
      snd (loadAndStore c cx k (snd (GetWithTTL c cx k (senv s))))"
    using leader_reload(2) [OF i1 t1 a1, of c] by (simp add: e1)
  have wl: "world (snd (loadAndStore_load c cx k (snd (GetWithTTL c cx k (senv s))))) = w'"
    using ld w by (simp add: loadAndStore_load_def Let_def split: option.splits)
  have se: "fst (Set c cx k res [] (snd (loadAndStore_load c cx k (snd (GetWithTTL c cx k (senv s)))))) = Some e"
    using wr by (simp add: Set_eq wl resolvedExpiration_def receivedExpiration_Nil)
  have calls: "setCalls (newCalls (senv s) (snd (loadAndStore c cx k (snd (GetWithTTL c cx k (senv s)))))) =
           [CallSet cx k res [WithExpiration (minimumTTL c + refreshTTL c)]]"
    using ld ad w
    by (auto simp: loadAndStore_cases admitted_def setCalls_def newCalls_def GetWithTTL_def Let_def
        split: option.splits prod.splits)
  show ?thesis using las se r calls env by simp
qed


theorem Get_discards_write_error_witness:
  "cacheGetWithTTL (cache readOnlyCache) (CallerCtx 1) (StringKey ''my-key'') (world (senv leaderState)) =
     ((NilValue, 0, Some NotFoundPtr), 0) \<and>
   admitted readOnlyCache (StringKey ''my-key'') (Str ''V'') \<and>
   fst (cacheSet (cache readOnlyCache) (CallerCtx 1) (StringKey ''my-key'') (Str ''V'')
     [WithExpiration (minimumTTL readOnlyCache + refreshTTL readOnlyCache)] 0) =
     Some (OtherError ''read-only'') \<and>
   result (run readOnlyCache leaderState [Run 0, Run 0, Run 0, Run 0, Run 0]) 0 = Some (Str ''V'', None) \<and>
   setCalls (newCalls (senv leaderState)
       (senv (run readOnlyCache leaderState [Run 0, Run 0, Run 0, Run 0, Run 0]))) =
     [CallSet (CallerCtx 1) (StringKey ''my-key'') (Str ''V'') [WithExpiration (3 * Second)]]"
  using Get_discards_write_error [of 0 leaderState "CallerCtx 1" "StringKey ''my-key''" 0
      readOnlyCache NilValue 0 0 loadV "Str ''V''" 0 "OtherError ''read-only''"]
  by (simp add: example_defs admitted_def)

section \<open>Frame of a step\<close>

lemma step_out_of_range:
  assumes "length (threads s) \<le> j"
  shows "step c j s = s"
  using assms by (simp add: step_def)

lemma step_Entered:
  assumes "j < length (threads s)" and "tpc (threads s ! j) = Entered"
  shows "step c j s =
     (case inprogressMap s (getCacheKey (tkey (threads s ! j))) of
        Some a \<Rightarrow> setPc j (Waiting a) s
      | None \<Rightarrow>
          setPc j (Leading (length (entries s)))
            (s\<lparr>inprogressMap := (inprogressMap s)(getCacheKey (tkey (threads s ! j)) := Some (length (entries s))),
               entries := entries s @ [\<lparr>lockChannel = False, entry_value = default, entry_err = None\<rparr>]\<rparr>))"
  using assms by (simp add: step_def Let_def)

lemma step_Waiting:
  assumes "j < length (threads s)" and "tpc (threads s ! j) = Waiting a"
  shows "step c j s =
     (if lockChannel (entries s ! a)
      then setPc j (Returned a (entry_value (entries s ! a), entry_err (entries s ! a))) s
      else s)"
  using assms by (simp add: step_def Let_def)

lemma step_BgLoading:
  assumes "j < length (threads s)" and "tpc (threads s ! j) = BgLoading a"
  shows "step c j s =
     (let l = loadAndStore_load c Background (tkey (threads s ! j)) (senv s)
      in setPc j (if snd (fst l) then BgStoring a (fst (fst l)) else BgDeleting a) (s\<lparr>senv := snd l\<rparr>))"
  using assms by (simp add: step_def Let_def split: prod.splits)

lemma step_BgStoring:
  assumes "j < length (threads s)" and "tpc (threads s ! j) = BgStoring a r"
  shows "step c j s =
     setPc j (BgDeleting a)
       (s\<lparr>senv := snd (loadAndStore_store c Background (tkey (threads s ! j)) r (senv s))\<rparr>)"
  using assms by (simp add: step_def Let_def split: prod.splits)

lemma step_BgDeleting:
  assumes "j < length (threads s)" and "tpc (threads s ! j) = BgDeleting a"
  shows "step c j s =
     setPc j (BgDone a)
       (s\<lparr>inprogressMap := (inprogressMap s)(getCacheKey (tkey (threads s ! j)) := None)\<rparr>)"
  using assms by (simp add: step_def Let_def)

lemma step_BgDone:
  assumes "tpc (threads s ! j) = BgDone a"
  shows "step c j s = s"
  using assms by (simp add: step_def Let_def)

lemmas step_cases = step_Entered step_Waiting step_Leading step_Loading step_Storing step_Deleting
  step_Spawning step_Closing step_Returned step_BgLoading step_BgStoring step_BgDeleting step_BgDone

lemma nth_update_cases:
  assumes "a < length xs"
  shows "xs[i := x] ! a = (if i = a then x else xs ! a)"
  using assms by simp

lemma step_threads_length: "length (threads s) \<le> length (threads (step c j s))"
proof (cases "j < length (threads s)")
  case True
  then show ?thesis
    by (cases "tpc (threads s ! j)") (simp_all add: step_cases Let_def split: option.splits)
qed (simp add: step_out_of_range)

lemma step_threads_other:
  assumes "i \<noteq> j" and "i < length (threads s)"
  shows "threads (step c j s) ! i = threads s ! i"
proof (cases "j < length (threads s)")
  case True
  with assms show ?thesis
    by (cases "tpc (threads s ! j)") (simp_all add: step_cases Let_def nth_append split: option.splits)
qed (simp add: step_out_of_range)

lemma step_threads_self:
  assumes "j < length (threads s)"
  shows "tctx (threads (step c j s) ! j) = tctx (threads s ! j)"
    and "tkey (threads (step c j s) ! j) = tkey (threads s ! j)"
  using assms
  by (cases "tpc (threads s ! j)"; simp add: step_cases Let_def nth_append split: option.splits)+

lemma step_threads_new:
  assumes "i < length (threads (step c j s))" and "length (threads s) \<le> i"
  shows "\<exists>a. j < length (threads s) \<and> tpc (threads s ! j) = Spawning a \<and>
      i = length (threads s) \<and>
      threads (step c j s) ! i =
        \<lparr>tctx = tctx (threads s ! j), tkey = tkey (threads s ! j), tpc = BgLoading a\<rparr>"
proof (cases "j < length (threads s)")
  case True
  with assms show ?thesis
    by (cases "tpc (threads s ! j)") (auto simp: step_cases Let_def nth_append split: option.splits if_splits)
next
  case False
  with assms show ?thesis by (simp add: step_out_of_range)
qed

lemma step_entries_length: "length (entries s) \<le> length (entries (step c j s))"
proof (cases "j < length (threads s)")
  case True
  then show ?thesis
    by (cases "tpc (threads s ! j)") (simp_all add: step_cases Let_def split: option.splits)
qed (simp add: step_out_of_range)

lemma step_entries_other:
  assumes "a < length (entries s)" and "leads (tpc (threads s ! j)) \<noteq> Some a"
  shows "entries (step c j s) ! a = entries s ! a"
proof (cases "j < length (threads s)")
  case True
  with assms show ?thesis
    by (cases "tpc (threads s ! j)") (simp_all add: step_cases Let_def nth_append split: option.splits)
qed (simp add: step_out_of_range)


lemma step_entries_result:
  assumes "a < length (entries s)" and "\<not> beforeWrite (tpc (threads s ! j))"
  shows "entry_value (entries (step c j s) ! a) = entry_value (entries s ! a)"
    and "entry_err (entries (step c j s) ! a) = entry_err (entries s ! a)"
proof -
  have "entry_value (entries (step c j s) ! a) = entry_value (entries s ! a) \<and>
        entry_err (entries (step c j s) ! a) = entry_err (entries s ! a)"
  proof (cases "j < length (threads s)")
    case True
    with assms show ?thesis
      by (cases "tpc (threads s ! j)")
        (simp_all add: step_cases Let_def nth_append nth_update_cases split: option.splits)
  qed (simp add: step_out_of_range)
  then show "entry_value (entries (step c j s) ! a) = entry_value (entries s ! a)"
    and "entry_err (entries (step c j s) ! a) = entry_err (entries s ! a)" by simp_all
qed

lemma step_map_other:
  assumes "k \<noteq> getCacheKey (tkey (threads s ! j))"
  shows "inprogressMap (step c j s) k = inprogressMap s k"
proof (cases "j < length (threads s)")
  case True
  with assms show ?thesis
    by (cases "tpc (threads s ! j)") (simp_all add: step_cases Let_def split: option.splits)
qed (simp add: step_out_of_range)

lemma step_map_keeps:
  assumes "inprogressMap s k = Some a" and "holds (tpc (threads s ! j)) = None"
  shows "inprogressMap (step c j s) k = Some a"
proof (cases "j < length (threads s)")
  case True
  with assms show ?thesis
    by (cases "tpc (threads s ! j)") (auto simp: step_cases Let_def split: option.splits)
qed (simp add: assms step_out_of_range)

section \<open>The invariant holds in every run\<close>

lemma refers_valid:
  assumes "addresses_valid s" and "i < length (threads s)" and "refers (tpc (threads s ! i)) = Some a"
  shows "a < length (entries s)"
  using assms by (simp add: addresses_valid_def)

lemma map_valid:
  assumes "addresses_valid s" and "inprogressMap s k = Some a"
  shows "a < length (entries s)"
  using assms unfolding addresses_valid_def by blast

lemma addresses_validI:
  assumes "\<And>i a. i < length (threads s) \<Longrightarrow> refers (tpc (threads s ! i)) = Some a \<Longrightarrow> a < length (entries s)"
    and "\<And>k a. inprogressMap s k = Some a \<Longrightarrow> a < length (entries s)"
  shows "addresses_valid s"
  using assms by (simp add: addresses_valid_def)

lemma addresses_valid_step:
  assumes av: "addresses_valid s"
  shows "addresses_valid (step c j s)"
proof (cases "j < length (threads s)")
  case False
  with assms show ?thesis by (simp add: step_out_of_range)
next
  case True
  note rv = refers_valid [OF av] and mv = map_valid [OF av]
  have own: "\<And>a. refers (tpc (threads s ! j)) = Some a \<Longrightarrow> a < length (entries s)"
    using rv True by blast
  show ?thesis
    using True own
    by (cases "tpc (threads s ! j)")
      (auto simp: step_cases nth_list_update nth_append Let_def less_Suc_eq
        intro!: addresses_validI dest: rv mv split: if_splits option.splits)
qed

lemma leaders_openD:
  assumes "leaders_open s" and "i < length (threads s)" and "leads (tpc (threads s ! i)) = Some a"
  shows "\<not> lockChannel (entries s ! a)"
  using assms by (simp add: leaders_open_def)

lemma leaders_openI:
  assumes "\<And>i a. i < length (threads s) \<Longrightarrow> leads (tpc (threads s ! i)) = Some a \<Longrightarrow> \<not> lockChannel (entries s ! a)"
  shows "leaders_open s"
  using assms by (simp add: leaders_open_def)

lemma leaders_distinctD:
  assumes "leaders_distinct s" and "i < length (threads s)" and "j < length (threads s)"
    and "leads (tpc (threads s ! i)) = Some a" and "leads (tpc (threads s ! j)) = Some a"
  shows "i = j"
  using assms unfolding leaders_distinct_def by blast

lemma leaders_distinctI:
  assumes "\<And>i j a. i < length (threads s) \<Longrightarrow> j < length (threads s) \<Longrightarrow>
      leads (tpc (threads s ! i)) = Some a \<Longrightarrow> leads (tpc (threads s ! j)) = Some a \<Longrightarrow> i = j"
  shows "leaders_distinct s"
  using assms unfolding leaders_distinct_def by blast

lemma leaders_refers: "leads p = Some a \<Longrightarrow> refers p = Some a"
  by (cases p) auto

lemma holds_refers: "holds p = Some a \<Longrightarrow> refers p = Some a"
  by (cases p) auto

lemma step_lock_back:
  assumes "a < length (entries (step c j s))" and "lockChannel (entries (step c j s) ! a)"
  shows "a < length (entries s) \<and>
         (lockChannel (entries s ! a) \<or> (j < length (threads s) \<and> tpc (threads s ! j) = Closing a))"
proof (cases "j < length (threads s)")
  case True
  with assms show ?thesis
    by (cases "tpc (threads s ! j)")
      (auto simp: step_cases Let_def nth_append nth_update_cases less_Suc_eq
        split: option.splits if_splits)
next
  case False
  with assms show ?thesis by (simp add: step_out_of_range)
qed

lemma own_leads:
  assumes "j < length (threads s)" and "leads (tpc (threads (step c j s) ! j)) = Some a"
  shows "(leads (tpc (threads s ! j)) = Some a \<and> tpc (threads s ! j) \<noteq> Closing a) \<or>
         (tpc (threads s ! j) = Entered \<and> inprogressMap s (getCacheKey (tkey (threads s ! j))) = None \<and>
          a = length (entries s))"
  using assms
  by (cases "tpc (threads s ! j)")
    (auto simp: step_cases Let_def nth_append split: option.splits if_splits)

lemma own_holds:
  assumes "j < length (threads s)" and "holds (tpc (threads (step c j s) ! j)) = Some a"
  shows "holds (tpc (threads s ! j)) = Some a \<or>
         (tpc (threads s ! j) = Entered \<and> inprogressMap s (getCacheKey (tkey (threads s ! j))) = None \<and>
          a = length (entries s))"
  using assms
  by (cases "tpc (threads s ! j)")
    (auto simp: step_cases Let_def nth_append split: option.splits if_splits)

lemma own_returned:
  assumes "j < length (threads s)" and "tpc (threads (step c j s) ! j) = Returned a r"
  shows "tpc (threads s ! j) = Returned a r \<or>
         (tpc (threads s ! j) = Waiting a \<and> lockChannel (entries s ! a) \<and>
          r = (entry_value (entries s ! a), entry_err (entries s ! a))) \<or>
         (tpc (threads s ! j) = Closing a \<and>
          r = (entry_value (entries s ! a), entry_err (entries s ! a)))"
  using assms
  by (cases "tpc (threads s ! j)")
    (auto simp: step_cases Let_def nth_append split: option.splits if_splits)

lemma step_fresh_leader:
  assumes "j < length (threads s)" and "tpc (threads s ! j) = Entered"
    and "inprogressMap s (getCacheKey (tkey (threads s ! j))) = None"
  shows "entries (step c j s) = entries s @ [\<lparr>lockChannel = False, entry_value = default, entry_err = None\<rparr>]"
    and "inprogressMap (step c j s) =
      (inprogressMap s)(getCacheKey (tkey (threads s ! j)) := Some (length (entries s)))"
    and "tpc (threads (step c j s) ! j) = Leading (length (entries s))"
  using assms by (simp_all add: step_Entered)

lemma step_holder_map:
  assumes "j < length (threads s)" and "holds (tpc (threads s ! j)) = Some a"
    and "holds (tpc (threads (step c j s) ! j)) = Some a"
  shows "inprogressMap (step c j s) = inprogressMap s"
  using assms
  by (cases "tpc (threads s ! j)")
    (auto simp: step_cases Let_def nth_append split: option.splits if_splits)

lemma step_spawn_map:
  assumes "j < length (threads s)" and "tpc (threads s ! j) = Spawning a"
  shows "inprogressMap (step c j s) = inprogressMap s"
  using assms by (simp add: step_Spawning)

lemma leaders_open_step:
  assumes av: "addresses_valid s" and lo: "leaders_open s" and ld: "leaders_distinct s"
  shows "leaders_open (step c j s)"
proof (rule leaders_openI)
  fix i a
  assume i: "i < length (threads (step c j s))"
    and l: "leads (tpc (threads (step c j s) ! i)) = Some a"
  show "\<not> lockChannel (entries (step c j s) ! a)"
  proof
    assume locked: "lockChannel (entries (step c j s) ! a)"
    consider (new) "length (threads s) \<le> i" | (other) "i < length (threads s)" "i \<noteq> j"
      | (self) "i < length (threads s)" "i = j" by linarith
    then show False
    proof cases
      case new
      with step_threads_new [OF i] l show False by auto
    next
      case other
      then have l0: "leads (tpc (threads s ! i)) = Some a"
        using l by (simp add: step_threads_other)
      have a: "a < length (entries s)"
        using refers_valid [OF av other(1) leaders_refers [OF l0]] .
      have "a < length (entries (step c j s))"
        using a step_entries_length [of s c j] by linarith
      from step_lock_back [OF this locked] leaders_openD [OF lo other(1) l0]
      have cl: "j < length (threads s)" "tpc (threads s ! j) = Closing a" by auto
      then have "leads (tpc (threads s ! j)) = Some a" by simp
      from leaders_distinctD [OF ld other(1) cl(1) l0 this] other(2) show False by simp
    next
      case self
      then have j: "j < length (threads s)" and l': "leads (tpc (threads (step c j s) ! j)) = Some a"
        using l by simp_all
      from own_leads [OF j l'] show False
      proof
        assume old: "leads (tpc (threads s ! j)) = Some a \<and> tpc (threads s ! j) \<noteq> Closing a"
        then have a: "a < length (entries s)"
          using refers_valid [OF av j leaders_refers] by blast
        then have "a < length (entries (step c j s))"
          using step_entries_length [of s c j] by linarith
        from step_lock_back [OF this locked] leaders_openD [OF lo j] old show False by auto
      next
        assume fresh: "tpc (threads s ! j) = Entered \<and>
          inprogressMap s (getCacheKey (tkey (threads s ! j))) = None \<and> a = length (entries s)"
        with step_fresh_leader(1) [OF j, of c] locked show False by simp
      qed
    qed
  qed
qed

lemma leaders_distinct_step:
  assumes av: "addresses_valid s" and ld: "leaders_distinct s"
  shows "leaders_distinct (step c j s)"
proof (rule leaders_distinctI)
  fix i i' a
  assume i: "i < length (threads (step c j s))" and i': "i' < length (threads (step c j s))"
    and l: "leads (tpc (threads (step c j s) ! i)) = Some a"
    and l': "leads (tpc (threads (step c j s) ! i')) = Some a"
  have old: "x < length (threads s)" if "x < length (threads (step c j s))"
    and "leads (tpc (threads (step c j s) ! x)) = Some a" for x
  proof (rule ccontr)
    assume "\<not> x < length (threads s)"
    with step_threads_new [OF that(1)] that(2) show False by auto
  qed
  have key: "x = j" if x: "x < length (threads s)" and j: "j < length (threads s)"
    and lx: "leads (tpc (threads (step c j s) ! x)) = Some a"
    and lj: "leads (tpc (threads (step c j s) ! j)) = Some a" for x
  proof (rule ccontr)
    assume ne: "x \<noteq> j"
    then have lx0: "leads (tpc (threads s ! x)) = Some a"
      using lx x by (simp add: step_threads_other)
    from own_leads [OF j lj] show False
    proof
      assume "leads (tpc (threads s ! j)) = Some a \<and> tpc (threads s ! j) \<noteq> Closing a"
      with leaders_distinctD [OF ld x j lx0] ne show False by simp
    next
      assume "tpc (threads s ! j) = Entered \<and>
          inprogressMap s (getCacheKey (tkey (threads s ! j))) = None \<and> a = length (entries s)"
      with refers_valid [OF av x leaders_refers [OF lx0]] show False by simp
    qed
  qed
  have io: "i < length (threads s)" and io': "i' < length (threads s)"
    using old [OF i l] old [OF i' l'] by simp_all
  show "i = i'"
  proof (cases "i = j")
    case True
    with key [OF io' _ l'] io l show ?thesis by simp
  next
    case False
    show ?thesis
    proof (cases "i' = j")
      case True
      with key [OF io _ l] io' l' show ?thesis by simp
    next
      case f2: False
      with False io io' l l' leaders_distinctD [OF ld io io'] show ?thesis
        by (simp add: step_threads_other)
    qed
  qed
qed

lemma returned_closedD:
  assumes "returned_closed s" and "i < length (threads s)" and "tpc (threads s ! i) = Returned a r"
  shows "lockChannel (entries s ! a)"
    and "r = (entry_value (entries s ! a), entry_err (entries s ! a))"
  using assms unfolding returned_closed_def by blast+

lemma returned_closedI:
  assumes "\<And>i a r. i < length (threads s) \<Longrightarrow> tpc (threads s ! i) = Returned a r \<Longrightarrow>
      lockChannel (entries s ! a) \<and> r = (entry_value (entries s ! a), entry_err (entries s ! a))"
  shows "returned_closed s"
  using assms by (simp add: returned_closed_def)

lemma step_entries_closing:
  assumes "j < length (threads s)" and "tpc (threads s ! j) = Closing a" and "a < length (entries s)"
  shows "lockChannel (entries (step c j s) ! a)"
    and "entry_value (entries (step c j s) ! a) = entry_value (entries s ! a)"
    and "entry_err (entries (step c j s) ! a) = entry_err (entries s ! a)"
  using assms by (simp_all add: step_Closing)

lemma returned_closed_step:
  assumes av: "addresses_valid s" and lo: "leaders_open s" and rc: "returned_closed s"
  shows "returned_closed (step c j s)"
proof (rule returned_closedI)
  fix i a r
  assume i: "i < length (threads (step c j s))"
    and ret: "tpc (threads (step c j s) ! i) = Returned a r"
  have closed_case: "lockChannel (entries (step c j s) ! a) \<and>
      r = (entry_value (entries (step c j s) ! a), entry_err (entries (step c j s) ! a))"
    if a: "a < length (entries s)" and locked: "lockChannel (entries s ! a)"
      and r: "r = (entry_value (entries s ! a), entry_err (entries s ! a))"
  proof -
    have "leads (tpc (threads s ! j)) \<noteq> Some a \<or> \<not> j < length (threads s)"
      using leaders_openD [OF lo] locked by blast
    then have "entries (step c j s) ! a = entries s ! a"
      using step_entries_other [OF a] step_out_of_range [of s j c] by auto
    with locked r show ?thesis by simp
  qed
  consider (new) "length (threads s) \<le> i" | (other) "i < length (threads s)" "i \<noteq> j"
    | (self) "i < length (threads s)" "i = j" by linarith
  then show "lockChannel (entries (step c j s) ! a) \<and>
      r = (entry_value (entries (step c j s) ! a), entry_err (entries (step c j s) ! a))"
  proof cases
    case new
    with step_threads_new [OF i] ret show ?thesis by auto
  next
    case other
    then have r0: "tpc (threads s ! i) = Returned a r"
      using ret by (simp add: step_threads_other)
    have a: "a < length (entries s)"
      using refers_valid [OF av other(1)] r0 by simp
    from closed_case [OF a returned_closedD [OF rc other(1) r0]] show ?thesis .
  next
    case self
    then have j: "j < length (threads s)" and ret': "tpc (threads (step c j s) ! j) = Returned a r"
      using ret by simp_all
    from own_returned [OF j ret'] consider
      (was) "tpc (threads s ! j) = Returned a r"
      | (waited) "tpc (threads s ! j) = Waiting a" "lockChannel (entries s ! a)"
          "r = (entry_value (entries s ! a), entry_err (entries s ! a))"
      | (closed) "tpc (threads s ! j) = Closing a"
          "r = (entry_value (entries s ! a), entry_err (entries s ! a))"
      by blast
    then show ?thesis
    proof cases
      case was
      have a: "a < length (entries s)"
        using refers_valid [OF av j] was by simp
      from closed_case [OF a returned_closedD [OF rc j was]] show ?thesis .
    next
      case waited
      have a: "a < length (entries s)"
        using refers_valid [OF av j] waited(1) by simp
      from closed_case [OF a waited(2,3)] show ?thesis .
    next
      case closed
      have a: "a < length (entries s)"
        using refers_valid [OF av j] closed(1) by simp
      from step_entries_closing [OF j closed(1) a, of c] closed(2) show ?thesis by simp
    qed
  qed
qed

lemma holders_registeredD:
  assumes "holders_registered s" and "i < length (threads s)" and "holds (tpc (threads s ! i)) = Some a"
  shows "inprogressMap s (getCacheKey (tkey (threads s ! i))) = Some a"
  using assms by (simp add: holders_registered_def)

lemma holders_registeredI:
  assumes "\<And>i a. i < length (threads s) \<Longrightarrow> holds (tpc (threads s ! i)) = Some a \<Longrightarrow>
      inprogressMap s (getCacheKey (tkey (threads s ! i))) = Some a"
  shows "holders_registered s"
  using assms by (simp add: holders_registered_def)

lemma holders_distinctD:
  assumes "holders_distinct s" and "i < length (threads s)" and "j < length (threads s)"
    and "holds (tpc (threads s ! i)) = Some a" and "holds (tpc (threads s ! j)) = Some b"
    and "getCacheKey (tkey (threads s ! i)) = getCacheKey (tkey (threads s ! j))"
  shows "i = j"
  using assms unfolding holders_distinct_def by (metis option.distinct(1))

lemma holders_distinctI:
  assumes "\<And>i j a b. i < length (threads s) \<Longrightarrow> j < length (threads s) \<Longrightarrow>
      holds (tpc (threads s ! i)) = Some a \<Longrightarrow> holds (tpc (threads s ! j)) = Some b \<Longrightarrow>
      getCacheKey (tkey (threads s ! i)) = getCacheKey (tkey (threads s ! j)) \<Longrightarrow> i = j"
  shows "holders_distinct s"
  unfolding holders_distinct_def using assms by (metis not_None_eq)

text \<open>The registration of another thread's record survives a step of thread j.\<close>

lemma step_map_of_other:
  assumes hr: "holders_registered s" and hd: "holders_distinct s"
    and i: "i < length (threads s)" and ne: "i \<noteq> j"
    and h: "holds (tpc (threads s ! i)) = Some a"
  shows "inprogressMap (step c j s) (getCacheKey (tkey (threads s ! i))) = Some a"
proof (cases "j < length (threads s)")
  case False
  with holders_registeredD [OF hr i h] show ?thesis by (simp add: step_out_of_range)
next
  case True
  show ?thesis
  proof (cases "holds (tpc (threads s ! j))")
    case None
    from step_map_keeps [OF holders_registeredD [OF hr i h] None] show ?thesis .
  next
    case (Some b)
    have "getCacheKey (tkey (threads s ! i)) \<noteq> getCacheKey (tkey (threads s ! j))"
      using holders_distinctD [OF hd i True h Some] ne by blast
    from step_map_other [OF this] holders_registeredD [OF hr i h] show ?thesis by simp
  qed
qed

lemma holders_registered_step:
  assumes hr: "holders_registered s" and hd: "holders_distinct s"
  shows "holders_registered (step c j s)"
proof (rule holders_registeredI)
  fix i a
  assume i: "i < length (threads (step c j s))"
    and h: "holds (tpc (threads (step c j s) ! i)) = Some a"
  consider (new) "length (threads s) \<le> i" | (other) "i < length (threads s)" "i \<noteq> j"
    | (self) "i < length (threads s)" "i = j" by linarith
  then show "inprogressMap (step c j s) (getCacheKey (tkey (threads (step c j s) ! i))) = Some a"
  proof cases
    case new
    from step_threads_new [OF i new] obtain b where
      j: "j < length (threads s)" and sp: "tpc (threads s ! j) = Spawning b"
      and th: "threads (step c j s) ! i =
        \<lparr>tctx = tctx (threads s ! j), tkey = tkey (threads s ! j), tpc = BgLoading b\<rparr>"
      by blast
    from th h have ab: "a = b" by simp
    have "inprogressMap s (getCacheKey (tkey (threads s ! j))) = Some b"
      using holders_registeredD [OF hr j] sp by simp
    with step_spawn_map [OF j sp, of c] th ab show ?thesis by simp
  next
    case other
    then have h0: "holds (tpc (threads s ! i)) = Some a"
      using h by (simp add: step_threads_other)
    from step_map_of_other [OF hr hd other(1,2) h0, of c] other show ?thesis
      by (simp add: step_threads_other)
  next
    case self
    then have j: "j < length (threads s)" and h': "holds (tpc (threads (step c j s) ! j)) = Some a"
      using h by simp_all
    from own_holds [OF j h'] show ?thesis
    proof
      assume old: "holds (tpc (threads s ! j)) = Some a"
      from step_holder_map [OF j old h'] holders_registeredD [OF hr j old] self
      show ?thesis by (simp add: step_threads_self)
    next
      assume "tpc (threads s ! j) = Entered \<and>
          inprogressMap s (getCacheKey (tkey (threads s ! j))) = None \<and> a = length (entries s)"
      with step_fresh_leader(2) [OF j, of c] self show ?thesis
        by (simp add: step_threads_self)
    qed
  qed
qed

lemma holder_origin:
  assumes x: "x < length (threads (step c j s))"
    and hx: "holds (tpc (threads (step c j s) ! x)) = Some e"
  shows "(x < length (threads s) \<and> x \<noteq> j \<and> threads (step c j s) ! x = threads s ! x) \<or>
         (x < length (threads s) \<and> x = j \<and> tkey (threads (step c j s) ! x) = tkey (threads s ! j) \<and>
            (holds (tpc (threads s ! j)) \<noteq> None \<or>
             inprogressMap s (getCacheKey (tkey (threads s ! j))) = None)) \<or>
         (x = length (threads s) \<and> j < length (threads s) \<and>
            tkey (threads (step c j s) ! x) = tkey (threads s ! j) \<and>
            holds (tpc (threads s ! j)) \<noteq> None \<and> holds (tpc (threads (step c j s) ! j)) = None)"
proof (cases "x < length (threads s)")
  case False
  with step_threads_new [OF x] obtain b where
    j: "j < length (threads s)" and sp: "tpc (threads s ! j) = Spawning b"
    and xn: "x = length (threads s)"
    and th: "threads (step c j s) ! x =
      \<lparr>tctx = tctx (threads s ! j), tkey = tkey (threads s ! j), tpc = BgLoading b\<rparr>"
    by auto
  have "tpc (threads (step c j s) ! j) = Closing b"
    using j sp by (simp add: step_Spawning nth_append)
  with j sp xn th show ?thesis by simp
next
  case True
  show ?thesis
  proof (cases "x = j")
    case False
    with True show ?thesis by (simp add: step_threads_other)
  next
    case xj: True
    with own_holds [of j s c e] True hx show ?thesis
      by (auto simp: step_threads_self)
  qed
qed

lemma holders_distinct_step_aux:
  assumes hr: "holders_registered s" and hd: "holders_distinct s"
    and i: "i < length (threads (step c j s))" and i': "i' < length (threads (step c j s))"
    and h: "holds (tpc (threads (step c j s) ! i)) = Some a"
    and h': "holds (tpc (threads (step c j s) ! i')) = Some b"
    and k: "getCacheKey (tkey (threads (step c j s) ! i)) = getCacheKey (tkey (threads (step c j s) ! i'))"
    and old: "i < length (threads s)" "i \<noteq> j"
  shows "i = i'"
proof -
  have same: "threads (step c j s) ! i = threads s ! i"
    using old by (simp add: step_threads_other)
  have h0: "holds (tpc (threads s ! i)) = Some a"
    using h same by simp
  have reg: "inprogressMap s (getCacheKey (tkey (threads s ! i))) = Some a"
    using holders_registeredD [OF hr old(1) h0] .
  from holder_origin [OF i' h'] consider
    (other) "i' < length (threads s)" "i' \<noteq> j" "threads (step c j s) ! i' = threads s ! i'"
    | (self) "i' = j" "j < length (threads s)" "tkey (threads (step c j s) ! i') = tkey (threads s ! j)"
        "holds (tpc (threads s ! j)) \<noteq> None \<or>
         inprogressMap s (getCacheKey (tkey (threads s ! j))) = None"
    | (new) "j < length (threads s)" "tkey (threads (step c j s) ! i') = tkey (threads s ! j)"
        "holds (tpc (threads s ! j)) \<noteq> None"
    by (elim disjE conjE) simp_all
  then show ?thesis
  proof cases
    case other
    with h' have "holds (tpc (threads s ! i')) = Some b" by simp
    from holders_distinctD [OF hd old(1) other(1) h0 this] k same other(3) show ?thesis by simp
  next
    case self
    have kj: "getCacheKey (tkey (threads s ! i)) = getCacheKey (tkey (threads s ! j))"
      using k same self(3) by simp
    from self(4) show ?thesis
    proof
      assume "holds (tpc (threads s ! j)) \<noteq> None"
      then obtain e where "holds (tpc (threads s ! j)) = Some e" by auto
      from holders_distinctD [OF hd old(1) self(2) h0 this kj] old(2) show ?thesis by simp
    next
      assume "inprogressMap s (getCacheKey (tkey (threads s ! j))) = None"
      with reg kj show ?thesis by simp
    qed
  next
    case new
    have kj: "getCacheKey (tkey (threads s ! i)) = getCacheKey (tkey (threads s ! j))"
      using k same new(2) by simp
    from new(3) obtain e where "holds (tpc (threads s ! j)) = Some e" by auto
    from holders_distinctD [OF hd old(1) new(1) h0 this kj] old(2) show ?thesis by simp
  qed
qed

lemma holders_distinct_step:
  assumes hr: "holders_registered s" and hd: "holders_distinct s"
  shows "holders_distinct (step c j s)"
proof (rule holders_distinctI)
  fix i i' a b
  assume i: "i < length (threads (step c j s))" and i': "i' < length (threads (step c j s))"
    and h: "holds (tpc (threads (step c j s) ! i)) = Some a"
    and h': "holds (tpc (threads (step c j s) ! i')) = Some b"
    and k: "getCacheKey (tkey (threads (step c j s) ! i)) = getCacheKey (tkey (threads (step c j s) ! i'))"
  show "i = i'"
  proof (cases "i < length (threads s) \<and> i \<noteq> j")
    case True
    with holders_distinct_step_aux [OF hr hd i i' h h' k] show ?thesis by simp
  next
    case ni: False
    show ?thesis
    proof (cases "i' < length (threads s) \<and> i' \<noteq> j")
      case True
      with holders_distinct_step_aux [OF hr hd i' i h' h k [symmetric]] show ?thesis by simp
    next
      case ni': False
      from holder_origin [OF i h] ni have ci:
        "(i = j \<and> i < length (threads s)) \<or>
         (i = length (threads s) \<and> holds (tpc (threads (step c j s) ! j)) = None)"
        by auto
      from holder_origin [OF i' h'] ni' have ci':
        "(i' = j \<and> i' < length (threads s)) \<or>
         (i' = length (threads s) \<and> holds (tpc (threads (step c j s) ! j)) = None)"
        by auto
      from ci ci' h h' show ?thesis by auto
    qed
  qed
qed

lemma invariant_initial: "invariant (initial \<sigma>)"
  by (simp add: invariant_def initial_def addresses_valid_def leaders_open_def leaders_distinct_def
      returned_closed_def holders_registered_def holders_distinct_def)

lemma invariant_step:
  assumes inv: "invariant s"
  shows "invariant (step c j s)"
proof -
  from inv have av: "addresses_valid s" and lo: "leaders_open s" and ld: "leaders_distinct s"
    and rc: "returned_closed s" and hr: "holders_registered s" and hd: "holders_distinct s"
    by (simp_all add: invariant_def)
  show ?thesis
    unfolding invariant_def
    using addresses_valid_step [OF av] leaders_open_step [OF av lo ld] leaders_distinct_step [OF av ld]
      returned_closed_step [OF av lo rc] holders_registered_step [OF hr hd]
      holders_distinct_step [OF hr hd]
    by blast
qed

lemma call_threads:
  "i < length (threads s) \<Longrightarrow> (threads s @ [t]) ! i = threads s ! i"
  "(threads s @ [t]) ! length (threads s) = t"
  by (simp_all add: nth_append)

lemma invariant_call:
  assumes inv: "invariant s"
  shows "invariant (s\<lparr>threads := threads s @ [\<lparr>tctx = cx, tkey = k, tpc = Entered\<rparr>]\<rparr>)"
    (is "invariant ?s'")
proof -
  from inv have av: "addresses_valid s" and lo: "leaders_open s" and ld: "leaders_distinct s"
    and rc: "returned_closed s" and hr: "holders_registered s" and hd: "holders_distinct s"
    by (simp_all add: invariant_def)
  have old: "i < length (threads s) \<and> threads ?s' ! i = threads s ! i"
    if "i < length (threads ?s')" and "tpc (threads ?s' ! i) \<noteq> Entered" for i
  proof (cases "i < length (threads s)")
    case True
    then show ?thesis by (simp add: nth_append)
  next
    case False
    with that have "i = length (threads s)" by simp
    with that(2) show ?thesis by simp
  qed
  have 1: "addresses_valid ?s'"
  proof (rule addresses_validI)
    fix i a
    assume "i < length (threads ?s')" and r: "refers (tpc (threads ?s' ! i)) = Some a"
    moreover from r have "tpc (threads ?s' ! i) \<noteq> Entered" by auto
    ultimately have "i < length (threads s)" "threads ?s' ! i = threads s ! i"
      using old [of i] by blast+
    with refers_valid [OF av] r show "a < length (entries ?s')" by simp
  next
    fix ka a
    assume "inprogressMap ?s' ka = Some a"
    with map_valid [OF av] show "a < length (entries ?s')" by simp
  qed
  have 2: "leaders_open ?s'"
  proof (rule leaders_openI)
    fix i a
    assume "i < length (threads ?s')" and l: "leads (tpc (threads ?s' ! i)) = Some a"
    moreover from l have "tpc (threads ?s' ! i) \<noteq> Entered" by auto
    ultimately have "i < length (threads s)" "threads ?s' ! i = threads s ! i"
      using old [of i] by blast+
    with leaders_openD [OF lo] l show "\<not> lockChannel (entries ?s' ! a)" by simp
  qed
  have 3: "leaders_distinct ?s'"
  proof (rule leaders_distinctI)
    fix i j a
    assume "i < length (threads ?s')" "j < length (threads ?s')"
      and l: "leads (tpc (threads ?s' ! i)) = Some a" "leads (tpc (threads ?s' ! j)) = Some a"
    moreover from l have "tpc (threads ?s' ! i) \<noteq> Entered" "tpc (threads ?s' ! j) \<noteq> Entered" by auto
    ultimately have "i < length (threads s)" "threads ?s' ! i = threads s ! i"
      "j < length (threads s)" "threads ?s' ! j = threads s ! j"
      using old [of i] old [of j] by blast+
    with leaders_distinctD [OF ld] l show "i = j" by simp
  qed
  have 4: "returned_closed ?s'"
  proof (rule returned_closedI)
    fix i a r
    assume "i < length (threads ?s')" and l: "tpc (threads ?s' ! i) = Returned a r"
    moreover from l have "tpc (threads ?s' ! i) \<noteq> Entered" by auto
    ultimately have "i < length (threads s)" "threads ?s' ! i = threads s ! i"
      using old [of i] by blast+
    with returned_closedD [OF rc, of i a r] l
    show "lockChannel (entries ?s' ! a) \<and>
      r = (entry_value (entries ?s' ! a), entry_err (entries ?s' ! a))" by simp
  qed
  have 5: "holders_registered ?s'"
  proof (rule holders_registeredI)
    fix i a
    assume "i < length (threads ?s')" and l: "holds (tpc (threads ?s' ! i)) = Some a"
    moreover from l have "tpc (threads ?s' ! i) \<noteq> Entered" by auto
    ultimately have "i < length (threads s)" "threads ?s' ! i = threads s ! i"
      using old [of i] by blast+
    with holders_registeredD [OF hr, of i a] l
    show "inprogressMap ?s' (getCacheKey (tkey (threads ?s' ! i))) = Some a" by simp
  qed
  have 6: "holders_distinct ?s'"
  proof (rule holders_distinctI)
    fix i j a b
    assume "i < length (threads ?s')" "j < length (threads ?s')"
      and l: "holds (tpc (threads ?s' ! i)) = Some a" "holds (tpc (threads ?s' ! j)) = Some b"
      and ke: "getCacheKey (tkey (threads ?s' ! i)) = getCacheKey (tkey (threads ?s' ! j))"
    moreover from l have "tpc (threads ?s' ! i) \<noteq> Entered" "tpc (threads ?s' ! j) \<noteq> Entered" by auto
    ultimately have "i < length (threads s)" "threads ?s' ! i = threads s ! i"
      "j < length (threads s)" "threads ?s' ! j = threads s ! j"
      using old [of i] old [of j] by blast+
    with holders_distinctD [OF hd, of i j a b] l ke show "i = j" by simp
  qed
  from 1 2 3 4 5 6 show ?thesis by (simp add: invariant_def)
qed

lemma invariant_perform:
  assumes "invariant s"
  shows "invariant (perform c s x)"
  using assms by (cases x) (simp_all add: invariant_step invariant_call)

lemma invariant_run:
  assumes "invariant s"
  shows "invariant (run c s as)"
  using assms by (induction as arbitrary: s) (simp_all add: invariant_perform)


section \<open>Coalescing\<close>









lemma carries_Returned: "carries es' (Returned a r) = carries es (Returned a r)"
  by simp





lemma filter_update_count:
  assumes "j < length xs"
  shows "length (filter P (xs[j := x])) + (if P (xs ! j) then 1 else 0) =
         length (filter P xs) + (if P x then 1 else 0)"
  using assms
proof (induction xs arbitrary: j)
  case Nil
  then show ?case by simp
next
  case (Cons y ys)
  show ?case
  proof (cases j)
    case 0
    then show ?thesis by simp
  next
    case (Suc n)
    with Cons.prems have "n < length ys" by simp
    from Cons.IH [OF this] Suc show ?thesis by simp
  qed
qed

lemma pendingWrites_setPc:
  assumes "j < length (threads s)"
  shows "pendingWrites (setPc j p s) + (if beforeWrite (tpc (threads s ! j)) then 1 else 0) =
         pendingWrites s + (if beforeWrite p then 1 else 0)"
  using filter_update_count [OF assms, of "\<lambda>t. beforeWrite (tpc t)" "(threads s ! j)\<lparr>tpc := p\<rparr>"]
  by (simp add: pendingWrites_def)

lemma pendingWrites_upd [simp]:
  "pendingWrites (s\<lparr>senv := \<sigma>\<rparr>) = pendingWrites s"
  "pendingWrites (s\<lparr>entries := es\<rparr>) = pendingWrites s"
  "pendingWrites (s\<lparr>inprogressMap := m\<rparr>) = pendingWrites s"
  "pendingWrites (setResult a r s) = pendingWrites s"
  by (simp_all add: pendingWrites_def)

lemma setCount_upd [simp]:
  "setCount (setPc j p s) = setCount s"
  "setCount (s\<lparr>entries := es\<rparr>) = setCount s"
  "setCount (s\<lparr>inprogressMap := m\<rparr>) = setCount s"
  "setCount (s\<lparr>threads := ts\<rparr>) = setCount s"
  "setCount (setResult a r s) = setCount s"
  "setCount (s\<lparr>senv := \<sigma>\<rparr>) = length (setCalls (calls \<sigma>))"
  by (simp_all add: setCount_def)
























section \<open>The stale path\<close>

lemma own_refreshOf:
  assumes "j < length (threads s)"
  shows "refreshOf a (tpc (threads (step c j s) ! j)) = refreshOf a (tpc (threads s ! j))"
  using assms
  by (cases "tpc (threads s ! j)")
    (auto simp: step_cases Let_def nth_append split: option.splits if_splits)

lemma own_served:
  assumes "j < length (threads s)" and "a < length (entries s)"
    and "tpc (threads s ! j) = Spawning a \<or> tpc (threads s ! j) = Closing a \<or>
       tpc (threads s ! j) = Returned a (v, None)"
    and "entry_value (entries s ! a) = v" and "entry_err (entries s ! a) = None"
  shows "tpc (threads (step c j s) ! j) = Closing a \<or>
       tpc (threads (step c j s) ! j) = Returned a (v, None)"
  using assms by (auto simp: step_cases nth_append)

lemma stale_served_step:
  assumes inv: "invariant s" and ss: "stale_served i a k v s"
  shows "stale_served i a k v (step c j s)"
proof (cases "j < length (threads s)")
  case False
  with ss show ?thesis by (simp add: step_out_of_range)
next
  case j: True
  from inv have av: "addresses_valid s" and lo: "leaders_open s" and ld: "leaders_distinct s"
    and rc: "returned_closed s" by (simp_all add: invariant_def)
  from ss have i: "i < length (threads s)" and a: "a < length (entries s)"
    and ki: "tkey (threads s ! i) = k"
    and pi: "tpc (threads s ! i) = Spawning a \<or> tpc (threads s ! i) = Closing a \<or>
       tpc (threads s ! i) = Returned a (v, None)"
    and ev: "entry_value (entries s ! a) = v" and ee: "entry_err (entries s ! a) = None"
    and rk: "\<And>g. g < length (threads s) \<Longrightarrow> refreshOf a (tpc (threads s ! g)) \<Longrightarrow>
         tkey (threads s ! g) = k \<and> tpc (threads s ! i) \<noteq> Spawning a"
    and started: "tpc (threads s ! i) = Spawning a \<or>
       (\<exists>g. g < length (threads s) \<and> refreshOf a (tpc (threads s ! g)))"
    unfolding stale_served_def by blast+
  let ?s = "step c j s"
  have i': "i < length (threads ?s)" using i step_threads_length [of s c j] by linarith
  have a': "a < length (entries ?s)" using a step_entries_length [of s c j] by linarith
  have ki': "tkey (threads ?s ! i) = k"
    using ki i step_threads_self(2) [of i s c] step_threads_other [of i j s c]
    by (cases "i = j") simp_all
  (* Nobody but thread i may write record a, and thread i does not. *)
  have nowrite: "leads (tpc (threads s ! j)) = Some a \<Longrightarrow> j = i"
  proof -
    assume lj: "leads (tpc (threads s ! j)) = Some a"
    from pi show "j = i"
    proof (elim disjE)
      assume "tpc (threads s ! i) = Spawning a"
      then have "leads (tpc (threads s ! i)) = Some a" by simp
      from leaders_distinctD [OF ld j i lj this] show ?thesis .
    next
      assume "tpc (threads s ! i) = Closing a"
      then have "leads (tpc (threads s ! i)) = Some a" by simp
      from leaders_distinctD [OF ld j i lj this] show ?thesis .
    next
      assume "tpc (threads s ! i) = Returned a (v, None)"
      from returned_closedD(1) [OF rc i this] leaders_openD [OF lo j lj] show ?thesis by simp
    qed
  qed
  have "\<not> beforeWrite (tpc (threads s ! j)) \<or> leads (tpc (threads s ! j)) \<noteq> Some a"
    using nowrite pi by (cases "tpc (threads s ! j)") auto
  then have entry: "entry_value (entries ?s ! a) = v \<and> entry_err (entries ?s ! a) = None"
    using step_entries_result [OF a, of j c] step_entries_other [OF a, of j c] ev ee by auto
  have pi': "tpc (threads ?s ! i) = Spawning a \<or> tpc (threads ?s ! i) = Closing a \<or>
       tpc (threads ?s ! i) = Returned a (v, None)"
  proof (cases "i = j")
    case True
    with own_served [OF j a _ ev ee, of c] pi show ?thesis by blast
  next
    case False
    with pi i show ?thesis by (simp add: step_threads_other)
  qed
  have spawn_iff: "tpc (threads ?s ! i) = Spawning a \<Longrightarrow> tpc (threads s ! i) = Spawning a \<and> i \<noteq> j"
  proof -
    assume sp: "tpc (threads ?s ! i) = Spawning a"
    show "tpc (threads s ! i) = Spawning a \<and> i \<noteq> j"
    proof (cases "i = j")
      case True
      with own_served [OF j a _ ev ee, of c] pi sp show ?thesis by auto
    next
      case False
      with sp i show ?thesis by (simp add: step_threads_other)
    qed
  qed
  have rk': "tkey (threads ?s ! g) = k \<and> tpc (threads ?s ! i) \<noteq> Spawning a"
    if g: "g < length (threads ?s)" and r: "refreshOf a (tpc (threads ?s ! g))" for g
  proof (cases "g < length (threads s)")
    case True
    have r0: "refreshOf a (tpc (threads s ! g))"
      using r True own_refreshOf [of g s a c] step_threads_other [of g j s c]
      by (cases "g = j") simp_all
    have "tkey (threads ?s ! g) = tkey (threads s ! g)"
      using True step_threads_self(2) [of g s c] step_threads_other [of g j s c]
      by (cases "g = j") simp_all
    with rk [OF True r0] spawn_iff show ?thesis by auto
  next
    case False
    with step_threads_new [OF g] obtain b where
      sp: "tpc (threads s ! j) = Spawning b"
      and th: "threads ?s ! g = \<lparr>tctx = tctx (threads s ! j), tkey = tkey (threads s ! j), tpc = BgLoading b\<rparr>"
      by auto
    from r th have ab: "a = b" by simp
    with sp have "leads (tpc (threads s ! j)) = Some a" by simp
    from nowrite [OF this] have ji: "j = i" .
    with th ki spawn_iff show ?thesis by auto
  qed
  have started': "tpc (threads ?s ! i) = Spawning a \<or>
       (\<exists>g. g < length (threads ?s) \<and> refreshOf a (tpc (threads ?s ! g)))"
  proof (cases "tpc (threads ?s ! i) = Spawning a")
    case True
    then show ?thesis by simp
  next
    case ns: False
    from started show ?thesis
    proof
      assume sp: "tpc (threads s ! i) = Spawning a"
      with ns i have ij: "i = j" by (cases "i = j") (simp_all add: step_threads_other)
      with sp j have "length (threads s) < length (threads ?s) \<and>
          refreshOf a (tpc (threads ?s ! length (threads s)))"
        by (simp add: step_Spawning nth_append)
      then show ?thesis by blast
    next
      assume "\<exists>g. g < length (threads s) \<and> refreshOf a (tpc (threads s ! g))"
      then obtain g where g: "g < length (threads s)" "refreshOf a (tpc (threads s ! g))" by blast
      have "refreshOf a (tpc (threads ?s ! g))"
        using g own_refreshOf [of g s a c] step_threads_other [of g j s c]
        by (cases "g = j") simp_all
      moreover have "g < length (threads ?s)"
        using g(1) step_threads_length [of s c j] by linarith
      ultimately show ?thesis by blast
    qed
  qed
  from i' a' ki' pi' entry rk' started' show ?thesis
    unfolding stale_served_def by blast
qed

lemma stale_served_call:
  assumes ss: "stale_served i a k v s"
  shows "stale_served i a k v (s\<lparr>threads := threads s @ [\<lparr>tctx = cx, tkey = k', tpc = Entered\<rparr>]\<rparr>)"
proof -
  have "g < length (threads s)"
    if "g < Suc (length (threads s))"
      "refreshOf a (tpc ((threads s @ [\<lparr>tctx = cx, tkey = k', tpc = Entered\<rparr>]) ! g))" for g
    using that by (cases "g = length (threads s)") simp_all
  moreover have "\<exists>g. g < Suc (length (threads s)) \<and>
      refreshOf a (tpc ((threads s @ [\<lparr>tctx = cx, tkey = k', tpc = Entered\<rparr>]) ! g))"
    if "g < length (threads s)" "refreshOf a (tpc (threads s ! g))" for g
    using that by (intro exI [of _ g]) (simp add: nth_append)
  ultimately show ?thesis
    using ss unfolding stale_served_def
    by (simp add: nth_append) (metis nth_append)
qed

lemma stale_served_run:
  assumes "invariant s" and "stale_served i a k v s"
  shows "stale_served i a k v (run c s bs)"
  using assms
proof (induction bs arbitrary: s)
  case Nil
  then show ?case by simp
next
  case (Cons x xs)
  have i1: "invariant (perform c s x)" using Cons.prems(1) by (rule invariant_perform)
  have "stale_served i a k v (perform c s x)"
    using Cons.prems by (cases x) (simp_all add: stale_served_step stale_served_call)
  with Cons.IH [OF i1] show ?case by simp
qed

lemma refreshOf_holds_or_done:
  assumes "refreshOf a p"
  shows "holds p = Some a \<or> p = BgDone a"
  using assms by (cases p) auto

text \<open>The goroutine runs loadAndStore under context.Background() and then deletes the key.\<close>

lemma refresh_runs:
  assumes g: "g < length (threads s)" and p: "tpc (threads s ! g) = BgLoading a"
  shows "senv (run c s [Run g, Run g]) = snd (loadAndStore c Background (tkey (threads s ! g)) (senv s))"
    and "senv (run c s [Run g, Run g, Run g]) = senv (run c s [Run g, Run g])"
    and "entries (run c s [Run g, Run g, Run g]) = entries s"
    and "tpc (threads (run c s [Run g, Run g, Run g]) ! g) = BgDone a"
    and "inprogressMap (run c s [Run g, Run g, Run g]) (getCacheKey (tkey (threads s ! g))) = None"
proof -
  obtain r writing \<sigma> where l: "loadAndStore_load c Background (tkey (threads s ! g)) (senv s) = ((r, writing), \<sigma>)"
    by (metis surj_pair)
  have "senv (run c s [Run g, Run g]) = snd (loadAndStore c Background (tkey (threads s ! g)) (senv s)) \<and>
    senv (run c s [Run g, Run g, Run g]) = senv (run c s [Run g, Run g]) \<and>
    entries (run c s [Run g, Run g, Run g]) = entries s \<and>
    tpc (threads (run c s [Run g, Run g, Run g]) ! g) = BgDone a \<and>
    inprogressMap (run c s [Run g, Run g, Run g]) (getCacheKey (tkey (threads s ! g))) = None"
  proof (cases writing)
    case True
    with l g p show ?thesis
      by (simp add: step_BgLoading step_BgStoring step_BgDeleting loadAndStore_def Let_def
          split: prod.splits)
  next
    case False
    with l g p show ?thesis
      by (simp add: step_BgLoading step_BgDeleting step_BgDone loadAndStore_def Let_def)
  qed
  then show "senv (run c s [Run g, Run g]) = snd (loadAndStore c Background (tkey (threads s ! g)) (senv s))"
    and "senv (run c s [Run g, Run g, Run g]) = senv (run c s [Run g, Run g])"
    and "entries (run c s [Run g, Run g, Run g]) = entries s"
    and "tpc (threads (run c s [Run g, Run g, Run g]) ! g) = BgDone a"
    and "inprogressMap (run c s [Run g, Run g, Run g]) (getCacheKey (tkey (threads s ! g))) = None"
    by simp_all
qed

lemma refreshOf_refers: "refreshOf a p \<Longrightarrow> refers p = Some a"
  by (cases p) auto

lemma refresh_after_spawnD:
  assumes "refresh_after_spawn s" and "g < length (threads s)" and "i < length (threads s)"
    and "refreshOf a (tpc (threads s ! g))" and "leads (tpc (threads s ! i)) = Some a"
  shows "tpc (threads s ! i) = Closing a"
  using assms unfolding refresh_after_spawn_def by blast

lemma refresh_after_spawn_step:
  assumes inv: "invariant s" and ra: "refresh_after_spawn s"
  shows "refresh_after_spawn (step c j s)"
  unfolding refresh_after_spawn_def
proof (intro allI impI)
  fix g i a
  let ?s = "step c j s"
  assume g: "g < length (threads ?s)" and i: "i < length (threads ?s)"
    and r: "refreshOf a (tpc (threads ?s ! g))" and l: "leads (tpc (threads ?s ! i)) = Some a"
  from inv have av: "addresses_valid s" and ld: "leaders_distinct s" by (simp_all add: invariant_def)
  show "tpc (threads ?s ! i) = Closing a"
  proof (cases "j < length (threads s)")
    case False
    then have "?s = s" by (simp add: step_out_of_range)
    with refresh_after_spawnD [OF ra, of g i a] g i r l show ?thesis by simp
  next
    case j: True
    have io: "i < length (threads s)"
    proof (rule ccontr)
      assume "\<not> i < length (threads s)"
      with step_threads_new [OF i] l show False by auto
    qed
    show ?thesis
    proof (cases "g < length (threads s)")
      case False
      with step_threads_new [OF g] obtain b where
        sp: "tpc (threads s ! j) = Spawning b"
        and th: "threads ?s ! g = \<lparr>tctx = tctx (threads s ! j), tkey = tkey (threads s ! j), tpc = BgLoading b\<rparr>"
        by auto
      from r th have ab: "a = b" by simp
      with sp have lj: "leads (tpc (threads s ! j)) = Some a" by simp
      show ?thesis
      proof (cases "i = j")
        case True
        with sp ab j show ?thesis by (simp add: step_Spawning nth_append)
      next
        case False
        with l io have "leads (tpc (threads s ! i)) = Some a" by (simp add: step_threads_other)
        from leaders_distinctD [OF ld io j this lj] False show ?thesis by simp
      qed
    next
      case go: True
      have r0: "refreshOf a (tpc (threads s ! g))"
        using r go own_refreshOf [of g s a c] step_threads_other [of g j s c]
        by (cases "g = j") simp_all
      show ?thesis
      proof (cases "i = j")
        case False
        with l io have "leads (tpc (threads s ! i)) = Some a" by (simp add: step_threads_other)
        from refresh_after_spawnD [OF ra go io r0 this] False io show ?thesis
          by (simp add: step_threads_other)
      next
        case True
        with l have "leads (tpc (threads ?s ! j)) = Some a" by simp
        from own_leads [OF j this] show ?thesis
        proof
          assume "leads (tpc (threads s ! j)) = Some a \<and> tpc (threads s ! j) \<noteq> Closing a"
          with refresh_after_spawnD [OF ra go j r0] show ?thesis by blast
        next
          assume "tpc (threads s ! j) = Entered \<and>
            inprogressMap s (getCacheKey (tkey (threads s ! j))) = None \<and> a = length (entries s)"
          with refers_valid [OF av go refreshOf_refers [OF r0]] show ?thesis by simp
        qed
      qed
    qed
  qed
qed

lemma refresh_after_spawn_call:
  assumes "refresh_after_spawn s"
  shows "refresh_after_spawn (s\<lparr>threads := threads s @ [\<lparr>tctx = cx, tkey = k, tpc = Entered\<rparr>]\<rparr>)"
  unfolding refresh_after_spawn_def
proof (intro allI impI)
  fix g i a
  let ?s = "s\<lparr>threads := threads s @ [\<lparr>tctx = cx, tkey = k, tpc = Entered\<rparr>]\<rparr>"
  assume g: "g < length (threads ?s)" and i: "i < length (threads ?s)"
    and r: "refreshOf a (tpc (threads ?s ! g))" and l: "leads (tpc (threads ?s ! i)) = Some a"
  have go: "g < length (threads s)"
    using g r by (cases "g = length (threads s)") simp_all
  have io: "i < length (threads s)"
    using i l by (cases "i = length (threads s)") simp_all
  from refresh_after_spawnD [OF assms go io] r l go io
  show "tpc (threads ?s ! i) = Closing a" by (simp add: nth_append)
qed

lemma refresh_after_spawn_run:
  assumes "invariant s" and "refresh_after_spawn s"
  shows "refresh_after_spawn (run c s as)"
  using assms
proof (induction as arbitrary: s)
  case Nil
  then show ?case by simp
next
  case (Cons x xs)
  have i1: "invariant (perform c s x)" using Cons.prems(1) by (rule invariant_perform)
  have "refresh_after_spawn (perform c s x)"
    using Cons.prems by (cases x) (simp_all add: refresh_after_spawn_step refresh_after_spawn_call)
  with Cons.IH [OF i1] show ?case by simp
qed

lemma refresh_after_spawn_initial: "refresh_after_spawn (initial \<sigma>)"
  by (simp add: refresh_after_spawn_def initial_def)

text \<open>
  C3, as amended. Let the call of thread \<open>i\<close>, in a state the machine reaches, read a
  value \<open>v\<close> whose logical TTL is negative and within the margin. Then it takes the third
  branch, and left alone returns \<open>(v, nil)\<close> in two steps. In every later state of every
  interleaving:
  \<^item> the call has returned nothing yet or has returned \<open>(v, nil)\<close>;
  \<^item> the record keeps \<open>(v, nil)\<close>, every call that returned from it returned \<open>(v, nil)\<close>,
    and a call waiting on it returns \<open>(v, nil)\<close> once the channel is closed;
  \<^item> once the call has passed the \<open>go\<close> statement there is a goroutine for the record;
    it works on the same key, runs \<open>loadAndStore\<close> under \<open>context.Background()\<close>, leaves
    every record as it is, and deletes the key from \<open>inprogressMap\<close> at its end;
  \<^item> the key stays mapped to the record in \<open>inprogressMap\<close> until a goroutine for the
    record is done.
  Nothing is said about the order of the refresh and the delivery of the stale value:
  the goroutine is started before the channel is closed.
\<close>

theorem Get_serves_stale_and_refreshes:
  fixes c :: "('v::default, 'w) StaleableCache"
  assumes reach: "s = run c (initial \<sigma>) as"
    and i: "i < length (threads s)"
    and th: "threads s ! i = \<lparr>tctx = cx, tkey = k, tpc = Leading a\<rparr>"
    and st: "cacheGetWithTTL (cache c) cx k (world (senv s)) = ((v, ttl, None), w)"
    and m: "0 \<le> sint (minimumTTL c)"
    and stale: "- sint (minimumTTL c) \<le> sint ttl - sint (minimumTTL c)"
      "sint ttl - sint (minimumTTL c) < 0"
    and s': "s' = run c (step c i s) bs"
  shows "tpc (threads (step c i s) ! i) = Spawning a \<and>
     result (run c (step c i s) [Run i, Run i]) i = Some (v, None) \<and>
     (result s' i = None \<or> result s' i = Some (v, None)) \<and>
     entry_value (entries s' ! a) = v \<and> entry_err (entries s' ! a) = None \<and>
     (\<forall>x r. x < length (threads s') \<longrightarrow> tpc (threads s' ! x) = Returned a r \<longrightarrow> r = (v, None)) \<and>
     (\<forall>x. x < length (threads s') \<longrightarrow> tpc (threads s' ! x) = Waiting a \<longrightarrow>
        lockChannel (entries s' ! a) \<longrightarrow> result (step c x s') x = Some (v, None)) \<and>
     (tpc (threads s' ! i) = Spawning a \<or>
        (\<exists>g. g < length (threads s') \<and> refreshOf a (tpc (threads s' ! g)))) \<and>
     (\<forall>g. g < length (threads s') \<longrightarrow> tpc (threads s' ! g) = BgLoading a \<longrightarrow>
        tkey (threads s' ! g) = k \<and>
        senv (run c s' [Run g, Run g]) = snd (loadAndStore c Background k (senv s')) \<and>
        entries (run c s' [Run g, Run g, Run g]) = entries s' \<and>
        tpc (threads (run c s' [Run g, Run g, Run g]) ! g) = BgDone a \<and>
        inprogressMap (run c s' [Run g, Run g, Run g]) (getCacheKey k) = None) \<and>
     (inprogressMap s' (getCacheKey k) = Some a \<or>
        (\<exists>g. g < length (threads s') \<and> tpc (threads s' ! g) = BgDone a))"
proof -
  have inv: "invariant s" unfolding reach by (rule invariant_run [OF invariant_initial])
  then have av: "addresses_valid s" by (simp add: invariant_def)
  have a: "a < length (entries s)" using refers_valid [OF av i] th by simp
  have c1: "\<not> (ttl - minimumTTL c + minimumTTL c <s 0)"
    using stale m by (simp add: word_sless_alt)
  have c2: "ttl - minimumTTL c <s 0"
    using fresh_iff(2) [OF m c1] stale by simp
  have s1: "step c i s = setPc i (Spawning a)
       (setResult a (v, None) (s\<lparr>senv := snd (GetWithTTL c cx k (senv s))\<rparr>))"
    using leader_read_value [OF i th st] c1 c2 by simp
  have sp: "tpc (threads (step c i s) ! i) = Spawning a"
    using i by (simp add: s1)
  have inv1: "invariant (step c i s)" using inv by (rule invariant_step)
  have ra1: "refresh_after_spawn (step c i s)"
    unfolding reach
    by (intro refresh_after_spawn_step invariant_run refresh_after_spawn_run invariant_initial
        refresh_after_spawn_initial)
  have i1: "i < length (threads (step c i s))" using i by (simp add: s1)
  have a1: "a < length (entries (step c i s))" using a by (simp add: s1)
  have norefresh: "\<not> refreshOf a (tpc (threads (step c i s) ! g))"
    if "g < length (threads (step c i s))" for g
    using refresh_after_spawnD [OF ra1 that i1, of a] sp by auto
  have ss1: "stale_served i a k v (step c i s)"
    unfolding stale_served_def using i1 a1 sp norefresh i a th by (simp add: s1)
  have ss: "stale_served i a k v s'"
    unfolding s' using inv1 ss1 by (rule stale_served_run)
  have inv': "invariant s'" unfolding s' using inv1 by (rule invariant_run)
  then have rc: "returned_closed s'" and hr: "holders_registered s'"
    by (simp_all add: invariant_def)
  from ss have i': "i < length (threads s')" and a': "a < length (entries s')"
    and ki: "tkey (threads s' ! i) = k"
    and pi: "tpc (threads s' ! i) = Spawning a \<or> tpc (threads s' ! i) = Closing a \<or>
       tpc (threads s' ! i) = Returned a (v, None)"
    and ev: "entry_value (entries s' ! a) = v" and ee: "entry_err (entries s' ! a) = None"
    and rk: "\<And>g. g < length (threads s') \<Longrightarrow> refreshOf a (tpc (threads s' ! g)) \<Longrightarrow>
         tkey (threads s' ! g) = k \<and> tpc (threads s' ! i) \<noteq> Spawning a"
    and started: "tpc (threads s' ! i) = Spawning a \<or>
       (\<exists>g. g < length (threads s') \<and> refreshOf a (tpc (threads s' ! g)))"
    unfolding stale_served_def by blast+
  have prompt: "result (run c (step c i s) [Run i, Run i]) i = Some (v, None)"
    using i a th by (simp add: s1 step_Spawning step_Closing result_def nth_append)
  have res: "result s' i = None \<or> result s' i = Some (v, None)"
    using pi by (auto simp: result_def)
  have ret: "r = (v, None)" if "x < length (threads s')" "tpc (threads s' ! x) = Returned a r" for x r
    using returned_closedD(2) [OF rc that] ev ee by simp
  have wait: "result (step c x s') x = Some (v, None)"
    if "x < length (threads s')" "tpc (threads s' ! x) = Waiting a" "lockChannel (entries s' ! a)" for x
    using that ev ee by (simp add: step_Waiting result_def)
  have bg: "tkey (threads s' ! g) = k \<and>
        senv (run c s' [Run g, Run g]) = snd (loadAndStore c Background k (senv s')) \<and>
        entries (run c s' [Run g, Run g, Run g]) = entries s' \<and>
        tpc (threads (run c s' [Run g, Run g, Run g]) ! g) = BgDone a \<and>
        inprogressMap (run c s' [Run g, Run g, Run g]) (getCacheKey k) = None"
    if g: "g < length (threads s')" and p: "tpc (threads s' ! g) = BgLoading a" for g
  proof -
    have "tkey (threads s' ! g) = k" using rk [OF g] p by simp
    with refresh_runs [OF g p, of c] show ?thesis by simp
  qed
  have table: "inprogressMap s' (getCacheKey k) = Some a \<or>
        (\<exists>g. g < length (threads s') \<and> tpc (threads s' ! g) = BgDone a)"
    using started
  proof
    assume "tpc (threads s' ! i) = Spawning a"
    then have "holds (tpc (threads s' ! i)) = Some a" by simp
    from holders_registeredD [OF hr i' this] ki show ?thesis by simp
  next
    assume "\<exists>g. g < length (threads s') \<and> refreshOf a (tpc (threads s' ! g))"
    then obtain g where g: "g < length (threads s')" "refreshOf a (tpc (threads s' ! g))" by blast
    from refreshOf_holds_or_done [OF g(2)] show ?thesis
    proof
      assume "holds (tpc (threads s' ! g)) = Some a"
      from holders_registeredD [OF hr g(1) this] rk [OF g] show ?thesis by simp
    next
      assume "tpc (threads s' ! g) = BgDone a"
      with g(1) show ?thesis by blast
    qed
  qed
  from sp prompt res ev ee ret wait started bg table show ?thesis by blast
qed

section \<open>The properties on runs of the examples\<close>



theorem Get_serves_stale_and_refreshes_witness:
  "threads (run staleCache (initial env0) staleArrival) ! 0 =
     \<lparr>tctx = CallerCtx 1, tkey = StringKey ''my-key'', tpc = Leading 0\<rparr> \<and>
   threads (run staleCache (initial env0) staleArrival) ! 1 =
     \<lparr>tctx = CallerCtx 2, tkey = StringKey ''my-key'', tpc = Waiting 0\<rparr> \<and>
   sint (3 * Second) - sint (minimumTTL staleCache) = - 2000000000 \<and>
   tpc (threads (step staleCache 0 (run staleCache (initial env0) staleArrival)) ! 0) = Spawning 0 \<and>
   result (run staleCache (step staleCache 0 (run staleCache (initial env0) staleArrival)) staleServed) 0 =
     Some (Str ''cached'', None) \<and>
   result (run staleCache (step staleCache 0 (run staleCache (initial env0) staleArrival)) staleServed) 1 =
     Some (Str ''cached'', None) \<and>
   tpc (threads (run staleCache (step staleCache 0 (run staleCache (initial env0) staleArrival))
     staleServed) ! 2) = BgDone 0 \<and>
   entry_value (entries (run staleCache (step staleCache 0 (run staleCache (initial env0) staleArrival))
     staleServed) ! 0) = Str ''cached'' \<and>
   newCalls env0 (senv (run staleCache (step staleCache 0 (run staleCache (initial env0) staleArrival))
     staleServed)) =
     [CallGetWithTTL (CallerCtx 1) (StringKey ''my-key''), CallPrintln (Str ''cached''),
      CallLoad Background (StringKey ''my-key''),
      CallSet Background (StringKey ''my-key'') (Str ''V'') [WithExpiration (5 * Second)]]"
proof -
  let ?s = "run staleCache (initial env0) staleArrival"
  let ?s' = "run staleCache (step staleCache 0 ?s) staleServed"
  have i: "0 < length (threads ?s)"
    and th: "threads ?s ! 0 = \<lparr>tctx = CallerCtx 1, tkey = StringKey ''my-key'', tpc = Leading 0\<rparr>"
    and th1: "threads ?s ! 1 = \<lparr>tctx = CallerCtx 2, tkey = StringKey ''my-key'', tpc = Waiting 0\<rparr>"
    and st: "cacheGetWithTTL (cache staleCache) (CallerCtx 1) (StringKey ''my-key'') (world (senv ?s)) =
      ((Str ''cached'', 3 * Second, None), 0)"
    by code_simp+
  have m: "0 \<le> sint (minimumTTL staleCache)"
    and lo: "- sint (minimumTTL staleCache) \<le> sint (3 * Second) - sint (minimumTTL staleCache)"
    and hi: "sint (3 * Second) - sint (minimumTTL staleCache) < 0"
    and diff: "sint (3 * Second) - sint (minimumTTL staleCache) = - 2000000000"
    by (simp_all add: example_defs)
  have r0: "result ?s' 0 = Some (Str ''cached'', None)"
    and r1: "result ?s' 1 = Some (Str ''cached'', None)"
    and g: "tpc (threads ?s' ! 2) = BgDone 0"
    and calls: "newCalls env0 (senv ?s') =
     [CallGetWithTTL (CallerCtx 1) (StringKey ''my-key''), CallPrintln (Str ''cached''),
      CallLoad Background (StringKey ''my-key''),
      CallSet Background (StringKey ''my-key'') (Str ''V'') [WithExpiration (5 * Second)]]"
    by code_simp+
  note served = Get_serves_stale_and_refreshes [OF refl i th st m lo hi refl, of staleServed]
  from served have "tpc (threads (step staleCache 0 ?s) ! 0) = Spawning 0"
    and "entry_value (entries ?s' ! 0) = Str ''cached''"
    by blast+
  with th th1 diff r0 r1 g calls show ?thesis by blast
qed

text \<open>
  A call finds the value stale while another call waits on its record. The goroutine it
  starts runs to its end before the call closes the channel: the store's \<open>Set\<close> has
  been called and the key is gone from \<open>inprogressMap\<close>, while neither the call nor
  the waiting call has received the stale value yet.
\<close>

theorem Get_serves_stale_and_refreshes_counterexample:
  "tpc (threads (step staleCache 0 (run staleCache (initial env0) staleArrival)) ! 0) = Spawning 0 \<and>
   tpc (threads (run staleCache (step staleCache 0 (run staleCache (initial env0) staleArrival))
     refreshFirst) ! 2) = BgDone 0 \<and>
   setCalls (calls (senv (run staleCache (step staleCache 0 (run staleCache (initial env0) staleArrival))
     refreshFirst))) =
     [CallSet Background (StringKey ''my-key'') (Str ''V'') [WithExpiration (5 * Second)]] \<and>
   result (run staleCache (step staleCache 0 (run staleCache (initial env0) staleArrival)) refreshFirst) 0 =
     None \<and>
   result (run staleCache (step staleCache 0 (run staleCache (initial env0) staleArrival)) refreshFirst) 1 =
     None \<and>
   \<not> lockChannel (entries (run staleCache (step staleCache 0 (run staleCache (initial env0) staleArrival))
     refreshFirst) ! 0)"
  by code_simp

end
